theory Spec2Isabelle
  imports Main "HOL-Library.Word"
begin

section \<open>LazyCopy: the copy worker of \<open>app.py\<close>\<close>

text \<open>
  The program copies a file or a directory tree. Its class \<open>Worker\<close> holds a progress
  bar, the path being copied and the chunk size; its methods \<open>link_file\<close> and
  \<open>copy_file\<close> act on the file system, the terminal and the logger. The model below
  passes all of that explicitly: one record \<open>state\<close> holds the worker's fields and the
  part of the outside world the methods touch, and each method maps a state to an outcome
  and a new state.
\<close>

subsection \<open>The file system\<close>

type_synonym path = string
type_synonym byte = "8 word"

text \<open>
  A path names a regular file (with the permission of the running user to read and to
  write it, and its bytes), a symbolic link (with its raw target string) or a directory
  (with the permission to write to it, and the size \<open>stat\<close> reports for it). Paths are
  looked up as written. A new entry needs its parent directory, the path before its last
  slash, to be there and writable; an entry with no slash in its name lies in the current
  directory, which is taken to exist and to be writable. The model has no hard links, so
  two different resolved paths are two different files.
\<close>

datatype node =
    File (readable: bool) (writable: bool) (content: "byte list")
  | Symlink path
  | Dir (dir_writable: bool) nat

type_synonym filesystem = "path \<rightharpoonup> node"

text \<open>The exceptions the modelled calls raise. All of them derive from \<open>Exception\<close>;
  the first six derive from \<open>OSError\<close>.\<close>

datatype exn =
    FileNotFoundError path
  | PermissionError path
  | IsADirectoryError path
  | NotADirectoryError path
  | FileExistsError path
  | TooManyLinks path
  | UnicodeDecodeError
  | ValueError
  | TypeError
  | AttributeError
  | EOFError

fun is_OSError :: "exn \<Rightarrow> bool" where
  "is_OSError (FileNotFoundError p) = True"
| "is_OSError (PermissionError p) = True"
| "is_OSError (IsADirectoryError p) = True"
| "is_OSError (NotADirectoryError p) = True"
| "is_OSError (FileExistsError p) = True"
| "is_OSError (TooManyLinks p) = True"
| "is_OSError e = False"

text \<open>
  How a call ends: it returns, it raises an exception, or \<open>sys.exit(c)\<close> ends the
  process with status \<open>c\<close>. (\<open>sys.exit\<close> raises \<open>SystemExit\<close>, which is not an
  \<open>Exception\<close>: no handler of the program catches it, \<open>main\<close> catches
  \<open>KeyboardInterrupt\<close> only.)
\<close>

datatype outcome = Return | Raise exn | Exit int

text \<open>Following symbolic links, as the kernel does for \<open>stat\<close> and \<open>open\<close>: at most
  40 links, then \<open>ELOOP\<close>. The result is a path that is not a link (it may be absent).\<close>

fun follow :: "nat \<Rightarrow> filesystem \<Rightarrow> path \<Rightarrow> path option" where
  "follow k f p =
     (case f p of
        Some (Symlink t) \<Rightarrow> (if k = 0 then None else follow (k - 1) f t)
      | _ \<Rightarrow> Some p)"

declare follow.simps [simp del]

definition resolve :: "filesystem \<Rightarrow> path \<Rightarrow> path option" where
  "resolve f p = follow 40 f p"

text \<open>\<open>os.path.exists\<close>: follows links; false for a dangling link and on any error.\<close>

definition path_exists :: "filesystem \<Rightarrow> path \<Rightarrow> bool" where
  "path_exists f p = (case resolve f p of None \<Rightarrow> False | Some q \<Rightarrow> f q \<noteq> None)"

text \<open>\<open>os.path.getsize\<close>: the size \<open>stat\<close> reports, following links.\<close>

definition getsize :: "filesystem \<Rightarrow> path \<Rightarrow> exn + nat" where
  "getsize f p =
     (case resolve f p of
        None \<Rightarrow> Inl (TooManyLinks p)
      | Some q \<Rightarrow>
          (case f q of
             None \<Rightarrow> Inl (FileNotFoundError p)
           | Some (File r w bs) \<Rightarrow> Inr (length bs)
           | Some (Dir dw sz) \<Rightarrow> Inr sz
           | Some (Symlink t) \<Rightarrow> Inl (TooManyLinks p)))"

text \<open>\<open>os.path.dirname\<close> of \<open>posixpath\<close>: what precedes the last slash, without the
  slashes it ends in unless it holds nothing else.\<close>

definition dirname :: "path \<Rightarrow> path" where
  "dirname p =
     (let head = rev (dropWhile (\<lambda>c. c \<noteq> CHR ''/'') (rev p));
          stripped = rev (dropWhile (\<lambda>c. c = CHR ''/'') (rev head))
      in if stripped = [] then head else stripped)"

text \<open>The directory a new entry \<open>q\<close> goes into: whether it may be written, or the error of
  looking it up. The empty path names nothing (\<open>ENOENT\<close>).\<close>

definition parent_dir :: "filesystem \<Rightarrow> path \<Rightarrow> exn + bool" where
  "parent_dir f q =
     (if q = [] then Inl (FileNotFoundError q)
      else if dirname q = [] then Inr True
      else (case resolve f (dirname q) of
              None \<Rightarrow> Inl (TooManyLinks q)
            | Some d \<Rightarrow>
                (case f d of
                   None \<Rightarrow> Inl (FileNotFoundError q)
                 | Some (Dir dw sz) \<Rightarrow> Inr dw
                 | Some (File r w bs) \<Rightarrow> Inl (NotADirectoryError q)
                 | Some (Symlink t) \<Rightarrow> Inl (TooManyLinks q))))"

text \<open>\<open>os.symlink(src, dest)\<close>: creates at \<open>dest\<close> a link whose target string is
  \<open>src\<close>. It fails when \<open>src\<close> is empty, when the parent directory of \<open>dest\<close> is
  missing, is no directory or may not be written, and when anything, a dangling link
  included, is already at \<open>dest\<close>. All its errors are \<open>OSError\<close>s.\<close>

definition os_symlink :: "filesystem \<Rightarrow> path \<Rightarrow> path \<Rightarrow> exn + filesystem" where
  "os_symlink f src dest =
     (if src = [] then Inl (FileNotFoundError src)
      else (case parent_dir f dest of
              Inl e \<Rightarrow> Inl e
            | Inr dw \<Rightarrow>
                (if f dest \<noteq> None then Inl (FileExistsError dest)
                 else if \<not> dw then Inl (PermissionError dest)
                 else Inr (f(dest \<mapsto> Symlink src)))))"

text \<open>\<open>os.readlink\<close>, which the program never calls: the raw target of a link.\<close>

definition readlink :: "filesystem \<Rightarrow> path \<Rightarrow> path option" where
  "readlink f p = (case f p of Some (Symlink t) \<Rightarrow> Some t | _ \<Rightarrow> None)"

text \<open>Opening for reading (\<open>"r"\<close>, \<open>"rb"\<close>) gives the resolved path of the file;
  opening for writing (\<open>"w"\<close>, \<open>"wb"\<close>) truncates the file, or creates it in its parent
  directory.\<close>

definition open_read :: "filesystem \<Rightarrow> path \<Rightarrow> exn + path" where
  "open_read f p =
     (case resolve f p of
        None \<Rightarrow> Inl (TooManyLinks p)
      | Some q \<Rightarrow>
          (case f q of
             None \<Rightarrow> Inl (FileNotFoundError p)
           | Some (File r w bs) \<Rightarrow> (if r then Inr q else Inl (PermissionError p))
           | Some (Dir dw sz) \<Rightarrow> Inl (IsADirectoryError p)
           | Some (Symlink t) \<Rightarrow> Inl (TooManyLinks p)))"

definition open_write :: "filesystem \<Rightarrow> path \<Rightarrow> exn + (path \<times> filesystem)" where
  "open_write f p =
     (case resolve f p of
        None \<Rightarrow> Inl (TooManyLinks p)
      | Some q \<Rightarrow>
          (case f q of
             None \<Rightarrow>
               (case parent_dir f q of
                  Inl e \<Rightarrow> Inl e
                | Inr dw \<Rightarrow>
                    (if dw then Inr (q, f(q \<mapsto> File True True []))
                     else Inl (PermissionError p)))
           | Some (File r w bs) \<Rightarrow>
               (if w then Inr (q, f(q \<mapsto> File r w [])) else Inl (PermissionError p))
           | Some (Dir dw sz) \<Rightarrow> Inl (IsADirectoryError p)
           | Some (Symlink t) \<Rightarrow> Inl (TooManyLinks p)))"

definition file_content :: "filesystem \<Rightarrow> path \<Rightarrow> byte list" where
  "file_content f q = (case f q of Some (File r w bs) \<Rightarrow> bs | _ \<Rightarrow> [])"

text \<open>\<open>os.path.basename\<close> of \<open>posixpath\<close>: what follows the last slash.\<close>

definition basename :: "path \<Rightarrow> string" where
  "basename p = rev (takeWhile (\<lambda>c. c \<noteq> CHR ''/'') (rev p))"

subsection \<open>The worker and its surroundings\<close>

text \<open>The progress bar is a \<open>tqdm\<close> object: its total, its counter and its label.\<close>

record tqdm =
  bar_total :: nat
  bar_n :: nat
  bar_desc :: string

text \<open>The logger's records: a level and a message. A message is one of the program's
  four f-strings, with the values it interpolates.\<close>

datatype level = INFO | ERROR

datatype message =
    Success_linking path path
  | Failed_to_link path path
  | Success_copying path path
  | Error_copying path path exn

text \<open>What a file object reads and writes: \<open>bytes\<close> in binary mode, a \<open>str\<close> in text
  mode. A character of a \<open>str\<close> is kept as its UTF-8 bytes.\<close>

type_synonym ch = "byte list"

datatype chunk = Bytes "byte list" | Str "ch list"

text \<open>The calls made on the progress bar and on the destination file, in order.\<close>

datatype event =
    Bar_new nat string
  | Bar_update nat
  | Bar_set_description
  | Bar_close
  | Write path chunk

record state =
  bar :: "tqdm option"
  curr_path :: "path option"
  chunk_size :: int
  files :: filesystem
  stdin :: "string list"
  stdout :: "string list"
  logged :: "(level \<times> message) list"
  events :: "event list"

subsection \<open>\<open>Worker.link_file\<close>\<close>

definition link_file :: "path \<Rightarrow> path \<Rightarrow> state \<Rightarrow> outcome \<times> state" where
  "link_file src dest s =
     (case os_symlink (files s) src dest of
        Inr f' \<Rightarrow>
          (Return, s\<lparr>files := f', logged := logged s @ [(ERROR, Success_linking src dest)]\<rparr>)
      | Inl e \<Rightarrow>
          (if is_OSError e
           then (Return, s\<lparr>logged := logged s @ [(ERROR, Failed_to_link src dest)]\<rparr>)
           else (Raise e, s)))"

subsection \<open>Text files: UTF-8 and universal newlines\<close>

text \<open>
  A file opened in text mode decodes its bytes. \<open>is_binary\<close> asks for UTF-8;
  \<open>copy_file\<close> passes \<open>encoding=None\<close>, the locale's encoding, taken here to be UTF-8
  as well, and the line separator of the platform is taken to be a line feed (POSIX).

  The lead byte of a well-formed UTF-8 sequence fixes how many bytes follow and the range
  of the first of them; the others lie between \<open>0x80\<close> and \<open>0xBF\<close>.
\<close>

definition lead :: "byte \<Rightarrow> (nat \<times> byte \<times> byte) option" where
  "lead b =
     (if b < 0x80 then Some (0, 0x80, 0xBF)
      else if 0xC2 \<le> b \<and> b \<le> 0xDF then Some (1, 0x80, 0xBF)
      else if b = 0xE0 then Some (2, 0xA0, 0xBF)
      else if b = 0xED then Some (2, 0x80, 0x9F)
      else if 0xE1 \<le> b \<and> b \<le> 0xEF then Some (2, 0x80, 0xBF)
      else if b = 0xF0 then Some (3, 0x90, 0xBF)
      else if 0xF1 \<le> b \<and> b \<le> 0xF3 then Some (3, 0x80, 0xBF)
      else if b = 0xF4 then Some (3, 0x80, 0x8F)
      else None)"

datatype seq = Complete | Truncated | Ill_formed

fun trail :: "nat \<Rightarrow> byte \<Rightarrow> byte \<Rightarrow> byte list \<Rightarrow> seq" where
  "trail 0 lo hi bs = Complete"
| "trail (Suc k) lo hi [] = Truncated"
| "trail (Suc k) lo hi (b # bs) =
     (if lo \<le> b \<and> b \<le> hi then trail k 0x80 0xBF bs else Ill_formed)"

text \<open>
  The incremental decoder (\<open>errors='strict'\<close>): the characters of the input, and the
  bytes of a sequence the input ends in the middle of, which it keeps for the next call
  unless the call is the final one. CPython also keeps, in a call that is not final, the
  two bytes \<open>ED A0\<close> to \<open>ED BF\<close> that the input ends in (the start of an encoded
  surrogate), and reports them in the next call.
\<close>

definition surrogate_start :: "byte list \<Rightarrow> bool" where
  "surrogate_start bs = (case bs of [x, y] \<Rightarrow> x = 0xED \<and> 0xA0 \<le> y \<and> y \<le> 0xBF | _ \<Rightarrow> False)"

datatype decoded = Decoded "ch list" "byte list" | Decode_error

fun prepend :: "ch \<Rightarrow> decoded \<Rightarrow> decoded" where
  "prepend c (Decoded cs inc) = Decoded (c # cs) inc"
| "prepend c Decode_error = Decode_error"

fun utf8_decode :: "bool \<Rightarrow> byte list \<Rightarrow> decoded" where
  "utf8_decode final [] = Decoded [] []"
| "utf8_decode final (b # bs) =
     (case lead b of
        None \<Rightarrow> Decode_error
      | Some (k, lo, hi) \<Rightarrow>
          (case trail k lo hi bs of
             Ill_formed \<Rightarrow>
               (if \<not> final \<and> surrogate_start (b # bs) then Decoded [] (b # bs)
                else Decode_error)
           | Truncated \<Rightarrow> (if final then Decode_error else Decoded [] (b # bs))
           | Complete \<Rightarrow> prepend (b # take k bs) (utf8_decode final (drop k bs))))"

definition CR :: ch where "CR = [0x0D]"
definition LF :: ch where "LF = [0x0A]"

text \<open>Universal newlines (\<open>newline=None\<close>) on reading: \<open>\r\n\<close> and \<open>\r\<close> become
  \<open>\n\<close>.\<close>

fun translate_newlines :: "ch list \<Rightarrow> ch list" where
  "translate_newlines [] = []"
| "translate_newlines [c] = [if c = CR then LF else c]"
| "translate_newlines (c # d # cs) =
     (if c = CR \<and> d = LF then LF # translate_newlines cs
      else if c = CR then LF # translate_newlines (d # cs)
      else c # translate_newlines (d # cs))"

text \<open>
  The text layer (\<open>TextIOWrapper\<close>) over a file: the bytes not yet handed to the decoder,
  the incomplete sequence the decoder holds, whether the newline decoder holds back a
  carriage return, and the decoded characters not yet returned. It hands the decoder
  blocks of \<open>CHUNK_SIZE\<close> bytes. (CPython takes a larger block when the number of
  characters still wanted, times the bytes per character of the block before, is more
  than that; for the 16 characters of \<open>is_binary\<close> it never is. The characters
  returned are the same either way; with the larger block a decoding error further on in
  the file is met a call earlier.)
\<close>

record text_reader =
  t_rest :: "byte list"
  t_dbuf :: "byte list"
  t_cr :: bool
  t_chars :: "ch list"

definition CHUNK_SIZE :: nat where "CHUNK_SIZE = 8192"

definition text_open :: "byte list \<Rightarrow> text_reader" where
  "text_open bs = \<lparr>t_rest = bs, t_dbuf = [], t_cr = False, t_chars = []\<rparr>"

text \<open>
  The newline decoder around the UTF-8 decoder: a carriage return held back from the last
  call is put in front; a carriage return at the end is held back unless the call is
  final.
\<close>

definition decode_block :: "bool \<Rightarrow> byte list \<Rightarrow> text_reader \<Rightarrow> exn + text_reader" where
  "decode_block final block r =
     (case utf8_decode final (t_dbuf r @ block) of
        Decode_error \<Rightarrow> Inl UnicodeDecodeError
      | Decoded cs inc \<Rightarrow>
          (let out = (if t_cr r then CR # cs else cs);
               hold = (\<not> final \<and> out \<noteq> [] \<and> last out = CR);
               out' = (if hold then butlast out else out)
           in Inr (r\<lparr>t_dbuf := inc, t_cr := hold,
                     t_chars := t_chars r @ translate_newlines out'\<rparr>)))"

text \<open>\<open>_read_chunk\<close>: one block from the file; an empty block is the end of the file
  and makes the call to the decoder final.\<close>

definition read_chunk :: "text_reader \<Rightarrow> exn + (bool \<times> text_reader)" where
  "read_chunk r =
     (let block = take CHUNK_SIZE (t_rest r); eof = (block = [])
      in case decode_block eof block (r\<lparr>t_rest := drop CHUNK_SIZE (t_rest r)\<rparr>) of
           Inl e \<Rightarrow> Inl e
         | Inr r' \<Rightarrow> Inr (eof, r'))"

text \<open>\<open>read(size)\<close> with \<open>size \<ge> 0\<close> reads blocks until \<open>size\<close> characters are there
  or the file has ended.\<close>

function fill :: "nat \<Rightarrow> text_reader \<Rightarrow> exn + text_reader" where
  "fill k r =
     (if k \<le> length (t_chars r) then Inr r
      else (case read_chunk r of
              Inl e \<Rightarrow> Inl e
            | Inr (eof, r') \<Rightarrow> (if eof then Inr r' else fill k r')))"
  by pat_completeness auto

lemma decode_block_rest:
  "decode_block final block r = Inr r' \<Longrightarrow> t_rest r' = t_rest r"
  by (auto simp: decode_block_def Let_def split: decoded.splits)

lemma read_chunk_rest:
  "read_chunk r = Inr (eof, r') \<Longrightarrow>
     t_rest r' = drop CHUNK_SIZE (t_rest r) \<and> eof = (take CHUNK_SIZE (t_rest r) = [])"
  by (auto simp: read_chunk_def Let_def split: sum.splits dest: decode_block_rest)

lemma CHUNK_SIZE_pos: "0 < CHUNK_SIZE"
  by (simp add: CHUNK_SIZE_def)

termination fill
proof (relation "measure (\<lambda>(k, r). length (t_rest r))")
  show "wf (measure (\<lambda>(k, r). length (t_rest r)))" by simp
next
  fix k :: nat and r x2 x y
  assume a: "read_chunk r = Inr x2" "(x, y) = x2" "\<not> x"
  then have "read_chunk r = Inr (x, y)" by simp
  from read_chunk_rest [OF this] a(3) CHUNK_SIZE_pos
  show "((k, y), (k, r)) \<in> measure (\<lambda>(k, r). length (t_rest r))"
    by (cases "t_rest r") auto
qed

declare fill.simps [simp del]

text \<open>
  \<open>TextIOWrapper.read(size)\<close>: a negative size reads and decodes all that is left, in
  one final call to the decoder; otherwise at most \<open>size\<close> characters are returned.
\<close>

definition text_read :: "int \<Rightarrow> text_reader \<Rightarrow> exn + (ch list \<times> text_reader)" where
  "text_read n r =
     (if n < 0
      then (case decode_block True (t_rest r) (r\<lparr>t_rest := []\<rparr>) of
              Inl e \<Rightarrow> Inl e
            | Inr r' \<Rightarrow> Inr (t_chars r', r'\<lparr>t_chars := []\<rparr>))
      else (case fill (nat n) r of
              Inl e \<Rightarrow> Inl e
            | Inr r' \<Rightarrow>
                Inr (take (nat n) (t_chars r'),
                     r'\<lparr>t_chars := drop (nat n) (t_chars r')\<rparr>)))"

text \<open>
  \<open>BufferedReader.read(size)\<close> on a regular file: \<open>size\<close> bytes or what is left; all
  that is left for \<open>-1\<close>; a \<open>ValueError\<close> ("read length must be non-negative or -1")
  below \<open>-1\<close>. The state of the reader is the bytes not yet read.
\<close>

definition binary_read :: "int \<Rightarrow> byte list \<Rightarrow> exn + (byte list \<times> byte list)" where
  "binary_read n bs =
     (if n < - 1 then Inl ValueError
      else if n = - 1 then Inr (bs, [])
      else Inr (take (nat n) bs, drop (nat n) bs))"

datatype reader = Binary_reader "byte list" | Text_reader text_reader

text \<open>\<open>open(src, "rb" if check_is_binary else "r")\<close> on the bytes of the file.\<close>

definition open_reader :: "bool \<Rightarrow> byte list \<Rightarrow> reader" where
  "open_reader check_is_binary bs =
     (if check_is_binary then Binary_reader bs else Text_reader (text_open bs))"

fun file_read :: "int \<Rightarrow> reader \<Rightarrow> exn + (chunk \<times> reader)" where
  "file_read n (Binary_reader bs) =
     (case binary_read n bs of
        Inl e \<Rightarrow> Inl e
      | Inr (buffer, bs') \<Rightarrow> Inr (Bytes buffer, Binary_reader bs'))"
| "file_read n (Text_reader r) =
     (case text_read n r of
        Inl e \<Rightarrow> Inl e
      | Inr (buffer, r') \<Rightarrow> Inr (Str buffer, Text_reader r'))"

text \<open>\<open>len(buffer)\<close> counts bytes of a \<open>bytes\<close> object and characters of a \<open>str\<close>.\<close>

fun chunk_len :: "chunk \<Rightarrow> nat" where
  "chunk_len (Bytes bs) = length bs"
| "chunk_len (Str cs) = length cs"

text \<open>The bytes a write puts into the file: a \<open>bytes\<close> object as it is, a \<open>str\<close>
  encoded in UTF-8, its line feeds written as the platform's line separator, a line feed.\<close>

fun encode :: "chunk \<Rightarrow> byte list" where
  "encode (Bytes bs) = bs"
| "encode (Str cs) = concat cs"

definition write_chunk :: "path \<Rightarrow> chunk \<Rightarrow> state \<Rightarrow> state" where
  "write_chunk q buffer s =
     s\<lparr>files :=
          (case files s q of
             Some (File r w bs) \<Rightarrow> (files s)(q \<mapsto> File r w (bs @ encode buffer))
           | _ \<Rightarrow> files s),
        events := events s @ [Write q buffer]\<rparr>"

subsection \<open>\<open>is_binary\<close>\<close>

text \<open>The function opens the file as UTF-8 text and reads 16 characters. Only a
  \<open>UnicodeDecodeError\<close> is caught; a failure to open the file is raised to the caller.\<close>

definition is_binary :: "filesystem \<Rightarrow> path \<Rightarrow> exn + bool" where
  "is_binary f file_path =
     (case open_read f file_path of
        Inl e \<Rightarrow> Inl e
      | Inr q \<Rightarrow>
          (case text_read 16 (text_open (file_content f q)) of
             Inr x \<Rightarrow> Inr False
           | Inl e \<Rightarrow> (if e = UnicodeDecodeError then Inr True else Inl e)))"

subsection \<open>The progress bar: \<open>init_bar\<close> and \<open>close_bar\<close>\<close>

definition init_bar :: "state \<Rightarrow> outcome \<times> state" where
  "init_bar s =
     (case curr_path s of
        None \<Rightarrow> (Raise TypeError, s)
      | Some p \<Rightarrow>
          (case getsize (files s) p of
             Inl e \<Rightarrow> (Raise e, s)
           | Inr file_size \<Rightarrow>
               (Return,
                s\<lparr>bar := Some \<lparr>bar_total = file_size, bar_n = 0, bar_desc = basename p\<rparr>,
                  events := events s @ [Bar_new file_size (basename p)]\<rparr>)))"

text \<open>
  \<open>close_bar\<close> tests \<open>if self._bar:\<close>. The test is the truth value of the object, and
  \<open>tqdm\<close> defines it (\<open>__bool__\<close>) as \<open>total > 0\<close> when a total is given: a bar made
  for an empty file counts as false.
\<close>

definition truth :: "tqdm option \<Rightarrow> bool" where
  "truth b = (case b of None \<Rightarrow> False | Some t \<Rightarrow> 0 < bar_total t)"

definition close_bar :: "state \<Rightarrow> state" where
  "close_bar s =
     (if truth (bar s) then s\<lparr>bar := None, events := events s @ [Bar_close]\<rparr> else s)"

subsection \<open>\<open>Worker.copy_file\<close>\<close>

text \<open>\<open>str.lower\<close>, on the letters of ASCII (a line is a list of 8-bit characters).\<close>

definition lower_char :: "char \<Rightarrow> char" where
  "lower_char c =
     (case map_of (zip ''ABCDEFGHIJKLMNOPQRSTUVWXYZ'' ''abcdefghijklmnopqrstuvwxyz'') c of
        Some d \<Rightarrow> d
      | None \<Rightarrow> c)"

definition lower :: "string \<Rightarrow> string" where
  "lower resp = map lower_char resp"

definition question :: "path \<Rightarrow> string" where
  "question dest =
     ''Duplicate file found at '' @ dest @ '' - Overwrite (O), Skip (S), Exit (E)?''"

text \<open>
  The loop of lines 98 to 110 on the lines of the standard input and the standard output:
  it prints the question and the prompt of \<open>input\<close>, reads a line and ends on \<open>s\<close>,
  \<open>e\<close> or \<open>o\<close>. At the end of the input \<open>input\<close> raises \<open>EOFError\<close>.
\<close>

datatype decision = Skip | Abort | Overwrite | End_of_input

fun ask :: "path \<Rightarrow> string list \<Rightarrow> string list \<Rightarrow> decision \<times> string list \<times> string list" where
  "ask dest [] out = (End_of_input, [], out @ [question dest, ''> ''])"
| "ask dest (line # rest) out =
     (let out' = out @ [question dest, ''> '']; resp = lower line
      in if resp = ''s'' then (Skip, rest, out')
         else if resp = ''e'' then (Abort, rest, out')
         else if resp = ''o'' then (Overwrite, rest, out')
         else ask dest rest out')"

subsection \<open>The decoder consumes its input: facts for the termination of the copy loop\<close>


lemma prepend_Decoded:
  "prepend c d = Decoded cs inc \<longleftrightarrow> (\<exists>cs'. cs = c # cs' \<and> d = Decoded cs' inc)"
  by (cases d) auto

lemma utf8_decode_concat:
  "utf8_decode final bs = Decoded cs inc \<Longrightarrow> concat cs @ inc = bs"
proof (induction final bs arbitrary: cs rule: utf8_decode.induct)
  case (1 final)
  then show ?case by simp
next
  case (2 final b bs)
  from "2.prems" obtain k lo hi where l: "lead b = Some (k, lo, hi)"
    by (auto split: option.splits)
  show ?case
  proof (cases "trail k lo hi bs")
    case Complete
    with "2.prems" l obtain cs' where cs: "cs = (b # take k bs) # cs'"
      and d: "utf8_decode final (drop k bs) = Decoded cs' inc"
      by (auto simp: prepend_Decoded)
    from "2.IH" [OF l refl refl Complete d] have "concat cs' @ inc = drop k bs" .
    with cs show ?thesis by simp
  next
    case Truncated
    with "2.prems" l show ?thesis by (auto split: if_splits)
  next
    case Ill_formed
    with "2.prems" l show ?thesis by (auto split: if_splits)
  qed
qed

lemma utf8_decode_nonempty:
  "utf8_decode final bs = Decoded cs inc \<Longrightarrow> [] \<notin> set cs"
proof (induction final bs arbitrary: cs rule: utf8_decode.induct)
  case (1 final)
  then show ?case by simp
next
  case (2 final b bs)
  from "2.prems" obtain k lo hi where l: "lead b = Some (k, lo, hi)"
    by (auto split: option.splits)
  show ?case
  proof (cases "trail k lo hi bs")
    case Complete
    with "2.prems" l obtain cs' where cs: "cs = (b # take k bs) # cs'"
      and d: "utf8_decode final (drop k bs) = Decoded cs' inc"
      by (auto simp: prepend_Decoded)
    from "2.IH" [OF l refl refl Complete d] cs show ?thesis by simp
  next
    case Truncated
    with "2.prems" l show ?thesis by (auto split: if_splits)
  next
    case Ill_formed
    with "2.prems" l show ?thesis by (auto split: if_splits)
  qed
qed

lemma utf8_decode_final:
  "utf8_decode True bs = Decoded cs inc \<Longrightarrow> inc = []"
proof (induction "True" bs arbitrary: cs rule: utf8_decode.induct)
  case 1
  then show ?case by simp
next
  case (2 b bs)
  from "2.prems" obtain k lo hi where l: "lead b = Some (k, lo, hi)"
    by (auto split: option.splits)
  show ?case
  proof (cases "trail k lo hi bs")
    case Complete
    with "2.prems" l obtain cs' where cs: "cs = (b # take k bs) # cs'"
      and d: "utf8_decode True (drop k bs) = Decoded cs' inc"
      by (auto simp: prepend_Decoded)
    from "2.hyps" [OF l refl refl Complete d] show ?thesis .
  next
    case Truncated
    with "2.prems" l show ?thesis by (auto split: if_splits)
  next
    case Ill_formed
    with "2.prems" l show ?thesis by simp
  qed
qed

lemma length_le_concat: "[] \<notin> set cs \<Longrightarrow> length cs \<le> length (concat cs)"
proof (induction cs)
  case Nil
  then show ?case by simp
next
  case (Cons c cs)
  then have "c \<noteq> []" by auto
  then have "1 \<le> length c" by (cases c) auto
  with Cons show ?case by simp
qed

lemma utf8_decode_length:
  assumes "utf8_decode final bs = Decoded cs inc"
  shows "length cs + length inc \<le> length bs"
proof -
  have "length (concat cs) + length inc = length bs"
    using utf8_decode_concat [OF assms] by (metis length_append)
  with length_le_concat [OF utf8_decode_nonempty [OF assms]] show ?thesis by simp
qed

lemma length_translate_newlines: "length (translate_newlines cs) \<le> length cs"
  by (induction cs rule: translate_newlines.induct) auto

text \<open>What a reader still holds; each read that returns something makes it smaller, which
  is why the copy loop ends.\<close>

definition tsize :: "text_reader \<Rightarrow> nat" where
  "tsize r = length (t_rest r) + length (t_dbuf r) + (if t_cr r then 1 else 0) + length (t_chars r)"

fun reader_size :: "reader \<Rightarrow> nat" where
  "reader_size (Binary_reader bs) = length bs"
| "reader_size (Text_reader r) = tsize r"

lemma decode_block_size:
  assumes "decode_block final block r = Inr r'"
  shows "tsize r' \<le> tsize r + length block"
proof -
  from assms obtain cs inc where d: "utf8_decode final (t_dbuf r @ block) = Decoded cs inc"
    by (auto simp: decode_block_def split: decoded.splits)
  define out where "out = (if t_cr r then CR # cs else cs)"
  define hold where "hold = (\<not> final \<and> out \<noteq> [] \<and> last out = CR)"
  define out' where "out' = (if hold then butlast out else out)"
  have "decode_block final block r =
      Inr (r\<lparr>t_dbuf := inc, t_cr := hold, t_chars := t_chars r @ translate_newlines out'\<rparr>)"
    unfolding decode_block_def d decoded.case Let_def out_def hold_def out'_def ..
  with assms have r': "r' = r\<lparr>t_dbuf := inc, t_cr := hold, t_chars := t_chars r @ translate_newlines out'\<rparr>"
    by simp
  have a: "length cs + length inc \<le> length (t_dbuf r) + length block"
    using utf8_decode_length [OF d] by simp
  have b: "length out = length cs + (if t_cr r then 1 else 0)"
    by (simp add: out_def)
  have c: "length out' + (if hold then 1 else 0) \<le> length out"
    by (cases out rule: rev_cases) (auto simp: out'_def hold_def)
  have e: "length (translate_newlines out') \<le> length out'"
    by (rule length_translate_newlines)
  show ?thesis
    using a b c e by (simp add: r' tsize_def)
qed

lemma read_chunk_size:
  assumes "read_chunk r = Inr (eof, r')"
  shows "tsize r' \<le> tsize r"
proof -
  from assms have d: "decode_block (take CHUNK_SIZE (t_rest r) = []) (take CHUNK_SIZE (t_rest r))
      (r\<lparr>t_rest := drop CHUNK_SIZE (t_rest r)\<rparr>) = Inr r'"
    by (auto simp: read_chunk_def Let_def split: sum.splits)
  have "tsize (r\<lparr>t_rest := drop CHUNK_SIZE (t_rest r)\<rparr>) + length (take CHUNK_SIZE (t_rest r)) = tsize r"
    by (simp add: tsize_def)
  with decode_block_size [OF d] show ?thesis by simp
qed

lemma fill_size: "fill k r = Inr r' \<Longrightarrow> tsize r' \<le> tsize r"
proof (induction k r rule: fill.induct)
  case (1 k r)
  show ?case
  proof (cases "k \<le> length (t_chars r)")
    case True
    with "1.prems" show ?thesis by (simp add: fill.simps [of k r])
  next
    case False
    with "1.prems" obtain eof r1 where rc: "read_chunk r = Inr (eof, r1)"
      by (auto simp: fill.simps [of k r] split: sum.splits)
    show ?thesis
    proof (cases eof)
      case True
      with "1.prems" False rc have "r' = r1" by (simp add: fill.simps [of k r])
      with read_chunk_size [OF rc] show ?thesis by simp
    next
      case f: False
      with "1.prems" False rc have "fill k r1 = Inr r'" by (simp add: fill.simps [of k r])
      from "1.IH" [OF False rc refl f this] read_chunk_size [OF rc] show ?thesis by simp
    qed
  qed
qed

lemma text_read_size:
  assumes "text_read n r = Inr (buffer, r')"
  shows "length buffer + tsize r' \<le> tsize r"
proof (cases "n < 0")
  case True
  with assms obtain r1 where d: "decode_block True (t_rest r) (r\<lparr>t_rest := []\<rparr>) = Inr r1"
    and b: "buffer = t_chars r1" and r': "r' = r1\<lparr>t_chars := []\<rparr>"
    by (auto simp: text_read_def split: sum.splits)
  have "tsize (r\<lparr>t_rest := []\<rparr>) + length (t_rest r) = tsize r" by (simp add: tsize_def)
  with decode_block_size [OF d] have "tsize r1 \<le> tsize r" by simp
  moreover have "length buffer + tsize r' = tsize r1" by (simp add: b r' tsize_def)
  ultimately show ?thesis by simp
next
  case False
  with assms obtain r1 where d: "fill (nat n) r = Inr r1"
    and b: "buffer = take (nat n) (t_chars r1)" and r': "r' = r1\<lparr>t_chars := drop (nat n) (t_chars r1)\<rparr>"
    by (auto simp: text_read_def split: sum.splits)
  have "length buffer + tsize r' = tsize r1" by (auto simp: b r' tsize_def)
  with fill_size [OF d] show ?thesis by simp
qed

lemma file_read_size:
  assumes "file_read n rd = Inr (buffer, rd')"
  shows "chunk_len buffer + reader_size rd' \<le> reader_size rd"
proof (cases rd)
  case (Binary_reader bs)
  with assms show ?thesis
    by (auto simp: binary_read_def split: if_splits)
next
  case (Text_reader r)
  with assms obtain b r' where "text_read n r = Inr (b, r')" "buffer = Str b" "rd' = Text_reader r'"
    by (auto split: sum.splits)
  with text_read_size [of n r b r'] Text_reader show ?thesis by simp
qed

subsection \<open>The copy loop and \<open>copy_file\<close>\<close>

text \<open>
  The loop of lines 122 to 130, on the resolved path of the destination and the reader of
  the source: it stops when a read returns nothing. The description set on the bar holds
  the measured latency, a wall-clock time, which is left out.
\<close>

definition bar_step :: "nat \<Rightarrow> tqdm \<Rightarrow> state \<Rightarrow> state" where
  "bar_step k b s =
     s\<lparr>bar := Some (b\<lparr>bar_n := bar_n b + k\<rparr>),
       events := events s @ [Bar_update k, Bar_set_description]\<rparr>"

function copy_loop :: "path \<Rightarrow> reader \<Rightarrow> state \<Rightarrow> outcome \<times> state" where
  "copy_loop q rd s =
     (case file_read (chunk_size s) rd of
        Inl e \<Rightarrow> (Raise e, s)
      | Inr (buffer, rd') \<Rightarrow>
          (if chunk_len buffer = 0 then (Return, s)
           else (case bar s of
                   None \<Rightarrow> (Raise AttributeError, write_chunk q buffer s)
                 | Some b \<Rightarrow>
                     copy_loop q rd' (bar_step (chunk_len buffer) b (write_chunk q buffer s)))))"
  by pat_completeness auto
termination
proof (relation "measure (\<lambda>(q, rd, s). reader_size rd)")
  show "wf (measure (\<lambda>(q, rd, s). reader_size rd))" by simp
next
  fix q :: path and rd :: reader and s :: state and x2 x y x2a
  assume a: "file_read (chunk_size s) rd = Inr x2" "(x, y) = x2" "chunk_len x \<noteq> 0"
  then have "file_read (chunk_size s) rd = Inr (x, y)" by simp
  from file_read_size [OF this] a(3)
  show "((q, y, bar_step (chunk_len x) x2a (write_chunk q x s)), (q, rd, s))
        \<in> measure (\<lambda>(q, rd, s). reader_size rd)"
    by simp
qed

declare copy_loop.simps [simp del]

text \<open>The \<open>with\<close> statement of lines 117 to 130: the source is opened first, then the
  destination, which truncates it; nothing of the source is read before that.\<close>

definition transfer :: "bool \<Rightarrow> path \<Rightarrow> path \<Rightarrow> state \<Rightarrow> outcome \<times> state" where
  "transfer check_is_binary src dest s =
     (case open_read (files s) src of
        Inl e \<Rightarrow> (Raise e, s)
      | Inr qs \<Rightarrow>
          (case open_write (files s) dest of
             Inl e \<Rightarrow> (Raise e, s)
           | Inr (qd, f') \<Rightarrow>
               copy_loop qd (open_reader check_is_binary (file_content f' qs))
                 (s\<lparr>files := f'\<rparr>)))"

text \<open>Lines 112 to 136: the bar, the probe, and the \<open>try\<close> statement around the
  transfer. \<open>except Exception\<close> catches every exception of the model.\<close>

definition copy_body :: "path \<Rightarrow> path \<Rightarrow> state \<Rightarrow> outcome \<times> state" where
  "copy_body src dest s =
     (case init_bar (s\<lparr>curr_path := Some src\<rparr>) of
        (Return, s1) \<Rightarrow>
          (case is_binary (files s1) src of
             Inl e \<Rightarrow> (Raise e, s1)
           | Inr check_is_binary \<Rightarrow>
               (case transfer check_is_binary src dest s1 of
                  (Return, s2) \<Rightarrow>
                    (let s3 = close_bar s2
                     in (Return, s3\<lparr>logged := logged s3 @ [(INFO, Success_copying src dest)]\<rparr>))
                | (Raise e, s2) \<Rightarrow>
                    (let s3 = close_bar s2
                     in (Return, s3\<lparr>logged := logged s3 @ [(ERROR, Error_copying src dest e)]\<rparr>))
                | (Exit c, s2) \<Rightarrow> (Exit c, s2)))
      | (out, s1) \<Rightarrow> (out, s1))"

definition copy_file :: "path \<Rightarrow> path \<Rightarrow> state \<Rightarrow> outcome \<times> state" where
  "copy_file src dest s =
     (if path_exists (files s) dest
      then (case ask dest (stdin s) (stdout s) of
              (Skip, inp, out) \<Rightarrow> (Return, s\<lparr>stdin := inp, stdout := out\<rparr>)
            | (Abort, inp, out) \<Rightarrow> (Exit 1, s\<lparr>stdin := inp, stdout := out\<rparr>)
            | (End_of_input, inp, out) \<Rightarrow> (Raise EOFError, s\<lparr>stdin := inp, stdout := out\<rparr>)
            | (Overwrite, inp, out) \<Rightarrow> copy_body src dest (s\<lparr>stdin := inp, stdout := out\<rparr>))
      else copy_body src dest s)"

section \<open>Notions for the statements, and example states\<close>

text \<open>The chunks written and the amounts the bar advanced by, read off a trace.\<close>

fun written :: "event list \<Rightarrow> chunk list" where
  "written [] = []"
| "written (Write q b # es) = b # written es"
| "written (e # es) = written es"

fun advanced :: "event list \<Rightarrow> nat list" where
  "advanced [] = []"
| "advanced (Bar_update k # es) = k # advanced es"
| "advanced (e # es) = advanced es"

fun is_bytes :: "chunk \<Rightarrow> bool" where
  "is_bytes (Bytes bs) = True"
| "is_bytes (Str cs) = False"

fun binary_mode :: "reader \<Rightarrow> bool" where
  "binary_mode (Binary_reader bs) = True"
| "binary_mode (Text_reader r) = False"

text \<open>A trace is chunked for a chunk size \<open>c\<close> and a mode when the bar advanced by the
  length of each chunk written, in order, each chunk has between 1 and \<open>c\<close> items, and the
  items are bytes in binary mode and characters in text mode.\<close>

definition chunked :: "int \<Rightarrow> bool \<Rightarrow> event list \<Rightarrow> bool" where
  "chunked c binary es =
     (advanced es = map chunk_len (written es) \<and>
      list_all (\<lambda>b. 0 < chunk_len b \<and> int (chunk_len b) \<le> c \<and> is_bytes b = binary) (written es))"


text \<open>The bytes a reader has not returned yet, and the readers that hold no carriage
  return: text mode leaves their bytes as they are.\<close>

definition pending :: "text_reader \<Rightarrow> byte list" where
  "pending r = concat (t_chars r) @ t_dbuf r @ t_rest r"

fun remaining :: "reader \<Rightarrow> byte list" where
  "remaining (Binary_reader bs) = bs"
| "remaining (Text_reader r) = pending r"

definition cr_free_text :: "text_reader \<Rightarrow> bool" where
  "cr_free_text r = (\<not> t_cr r \<and> 0x0D \<notin> set (pending r))"

fun cr_free :: "reader \<Rightarrow> bool" where
  "cr_free (Binary_reader bs) = True"
| "cr_free (Text_reader r) = cr_free_text r"

text \<open>Input the decoder accepts as a whole; a reader whose undecoded bytes are such.\<close>

definition well_formed :: "byte list \<Rightarrow> bool" where
  "well_formed bs = (utf8_decode True bs \<noteq> Decode_error)"

definition valid_reader :: "text_reader \<Rightarrow> bool" where
  "valid_reader r = well_formed (t_dbuf r @ t_rest r)"

text \<open>The characters of a whole input, and the text a file holds: what reading all of it
  in text mode returns.\<close>

definition chars_of :: "byte list \<Rightarrow> ch list" where
  "chars_of bs = (case utf8_decode True bs of Decoded cs inc \<Rightarrow> cs | Decode_error \<Rightarrow> [])"

definition text_items :: "byte list \<Rightarrow> ch list" where
  "text_items bs = translate_newlines (chars_of bs)"

text \<open>A list cut into pieces of \<open>n\<close> items; the last piece may be shorter.\<close>

fun split_chunks :: "nat \<Rightarrow> 'a list \<Rightarrow> 'a list list" where
  "split_chunks n xs =
     (if n = 0 \<or> xs = [] then [] else take n xs # split_chunks n (drop n xs))"

declare split_chunks.simps [simp del]

text \<open>The chunks of a source: of its bytes in binary mode, of the characters of its text
  in text mode.\<close>

definition source_chunks :: "int \<Rightarrow> bool \<Rightarrow> byte list \<Rightarrow> chunk list" where
  "source_chunks c binary bs =
     (if binary then map Bytes (split_chunks (nat c) bs)
      else map Str (split_chunks (nat c) (text_items bs)))"

text \<open>The characters a text reader has yet to return.\<close>

definition ahead :: "text_reader \<Rightarrow> ch list" where
  "ahead r =
     t_chars r @
     translate_newlines ((if t_cr r then [CR] else []) @ chars_of (t_dbuf r @ t_rest r))"

fun rest_chunks :: "nat \<Rightarrow> reader \<Rightarrow> chunk list" where
  "rest_chunks n (Binary_reader bs) = map Bytes (split_chunks n bs)"
| "rest_chunks n (Text_reader r) = map Str (split_chunks n (ahead r))"

fun valid :: "reader \<Rightarrow> bool" where
  "valid (Binary_reader bs) = True"
| "valid (Text_reader r) = valid_reader r"

fun prepends :: "ch list \<Rightarrow> decoded \<Rightarrow> decoded" where
  "prepends [] d = d"
| "prepends (c # cs) d = prepend c (prepends cs d)"

definition prompted :: "path \<Rightarrow> state \<Rightarrow> state \<Rightarrow> bool" where
  "prompted dest s s' = (take 2 (drop (length (stdout s)) (stdout s')) = [question dest, ''> ''])"

text \<open>What the prompt prints while it reads the lines \<open>ls\<close>.\<close>

definition asked :: "path \<Rightarrow> string list \<Rightarrow> string list" where
  "asked dest ls = concat (map (\<lambda>l. [question dest, ''> '']) ls)"

text \<open>A worker as \<open>Worker(chunk_size)\<close> makes it (lines 48 to 51), with a file system and
  the lines waiting on the standard input.\<close>

definition new_worker :: "int \<Rightarrow> filesystem \<Rightarrow> string list \<Rightarrow> state" where
  "new_worker c f inp =
     \<lparr>bar = None, curr_path = None, chunk_size = c, files = f, stdin = inp, stdout = [],
      logged = [], events = []\<rparr>"

text \<open>The tree of the specification's scenario: a directory \<open>A\<close> with the file \<open>a.txt\<close>
  (\<open>hello\<close>), the empty directory \<open>B\<close> and the link \<open>c\<close> to \<open>/tmp/target\<close>, and the
  directory \<open>dest\<close>.\<close>

definition tree :: filesystem where
  "tree =
     [''A'' \<mapsto> Dir True 4096,
      ''A/a.txt'' \<mapsto> File True True [0x68, 0x65, 0x6C, 0x6C, 0x6F],
      ''A/B'' \<mapsto> Dir True 4096,
      ''A/c'' \<mapsto> Symlink ''/tmp/target'',
      ''dest'' \<mapsto> Dir True 4096]"

text \<open>The scenario of the specification: a binary file \<open>src.bin\<close> and an existing file
  \<open>dest.bin\<close>.\<close>

definition bins :: filesystem where
  "bins = [''src.bin'' \<mapsto> File True True [0xFF, 0x00, 0x01], ''dest.bin'' \<mapsto> File True True [0x41]]"

text \<open>The scenario of the specification: chunk size 4 and the ten bytes \<open>0123456789\<close>.\<close>

definition digits :: "byte list" where
  "digits = [0x30, 0x31, 0x32, 0x33, 0x34, 0x35, 0x36, 0x37, 0x38, 0x39]"

definition ten :: state where
  "ten = new_worker 4 [''src.txt'' \<mapsto> File True True digits] []"


text \<open>A text file with a Windows line ending: \<open>a\r\nb\<close>.\<close>

definition crlf :: state where
  "crlf = new_worker 4096 [''src.txt'' \<mapsto> File True True [0x61, 0x0D, 0x0A, 0x62]] []"

text \<open>Two files of 17 bytes: fifteen letters \<open>a\<close> and the two bytes of \<open>U+00E9\<close>, which
  the sixteenth byte cuts in half; and sixteen letters \<open>a\<close> and the byte \<open>0xFF\<close>, which
  no UTF-8 text holds.\<close>

definition straddle :: "byte list" where
  "straddle = [0x61, 0x61, 0x61, 0x61, 0x61, 0x61, 0x61, 0x61, 0x61, 0x61, 0x61, 0x61, 0x61,
               0x61, 0x61, 0xC3, 0xA9]"

definition late_ff :: "byte list" where
  "late_ff = [0x61, 0x61, 0x61, 0x61, 0x61, 0x61, 0x61, 0x61, 0x61, 0x61, 0x61, 0x61, 0x61,
              0x61, 0x61, 0x61, 0xFF]"

text \<open>A source the user may not read.\<close>

definition unreadable :: state where
  "unreadable = new_worker 4096 [''src.txt'' \<mapsto> File False True digits] []"

text \<open>An empty source.\<close>

definition empty_source :: state where
  "empty_source = new_worker 4096 [''empty.txt'' \<mapsto> File True True []] []"

section \<open>Facts about the model\<close>

subsection \<open>Facts about the prompt and the loop\<close>

lemma lower_char_e: "lower_char c = CHR ''e'' \<longleftrightarrow> c = CHR ''e'' \<or> c = CHR ''E''"
  by (auto simp: lower_char_def split: if_splits)
lemma lower_char_s: "lower_char c = CHR ''s'' \<longleftrightarrow> c = CHR ''s'' \<or> c = CHR ''S''"
  by (auto simp: lower_char_def split: if_splits)
lemma lower_char_o: "lower_char c = CHR ''o'' \<longleftrightarrow> c = CHR ''o'' \<or> c = CHR ''O''"
  by (auto simp: lower_char_def split: if_splits)

lemma lower_e: "lower line = ''e'' \<longleftrightarrow> line = ''e'' \<or> line = ''E''"
  by (cases line) (auto simp: lower_def lower_char_e)
lemma lower_s: "lower line = ''s'' \<longleftrightarrow> line = ''s'' \<or> line = ''S''"
  by (cases line) (auto simp: lower_def lower_char_s)
lemma lower_o: "lower line = ''o'' \<longleftrightarrow> line = ''o'' \<or> line = ''O''"
  by (cases line) (auto simp: lower_def lower_char_o)

lemma write_chunk_frame [simp]:
  "stdin (write_chunk q b s) = stdin s" "stdout (write_chunk q b s) = stdout s"
  "logged (write_chunk q b s) = logged s" "bar (write_chunk q b s) = bar s"
  "chunk_size (write_chunk q b s) = chunk_size s" "curr_path (write_chunk q b s) = curr_path s"
  "events (write_chunk q b s) = events s @ [Write q b]"
  by (simp_all add: write_chunk_def)

lemma bar_step_frame [simp]:
  "stdin (bar_step k b s) = stdin s" "stdout (bar_step k b s) = stdout s"
  "logged (bar_step k b s) = logged s" "files (bar_step k b s) = files s"
  "chunk_size (bar_step k b s) = chunk_size s" "curr_path (bar_step k b s) = curr_path s"
  "bar (bar_step k b s) = Some (b\<lparr>bar_n := bar_n b + k\<rparr>)"
  "events (bar_step k b s) = events s @ [Bar_update k, Bar_set_description]"
  by (simp_all add: bar_step_def)

text \<open>One turn of the loop, as a case distinction.\<close>

lemma copy_loop_cases:
  obtains (raised) e where "file_read (chunk_size s) rd = Inl e" "copy_loop q rd s = (Raise e, s)"
  | (finished) buffer rd' where "file_read (chunk_size s) rd = Inr (buffer, rd')" "chunk_len buffer = 0"
      "copy_loop q rd s = (Return, s)"
  | (no_bar) buffer rd' where "file_read (chunk_size s) rd = Inr (buffer, rd')" "chunk_len buffer \<noteq> 0"
      "bar s = None" "copy_loop q rd s = (Raise AttributeError, write_chunk q buffer s)"
  | (step) buffer rd' b where "file_read (chunk_size s) rd = Inr (buffer, rd')" "chunk_len buffer \<noteq> 0"
      "bar s = Some b"
      "copy_loop q rd s = copy_loop q rd' (bar_step (chunk_len buffer) b (write_chunk q buffer s))"
proof (cases "file_read (chunk_size s) rd")
  case (Inl e)
  then show ?thesis using raised by (simp add: copy_loop.simps [of q rd s])
next
  case (Inr x)
  obtain buffer rd' where x: "x = (buffer, rd')" by (cases x)
  show ?thesis
  proof (cases "chunk_len buffer = 0")
    case True
    with Inr x show ?thesis using finished by (simp add: copy_loop.simps [of q rd s])
  next
    case False
    show ?thesis
    proof (cases "bar s")
      case None
      with Inr x False show ?thesis using no_bar by (simp add: copy_loop.simps [of q rd s])
    next
      case (Some b)
      with Inr x False show ?thesis using step by (simp add: copy_loop.simps [of q rd s])
    qed
  qed
qed

lemma copy_loop_frame:
  "stdin (snd (copy_loop q rd s)) = stdin s \<and> stdout (snd (copy_loop q rd s)) = stdout s \<and>
   logged (snd (copy_loop q rd s)) = logged s \<and> chunk_size (snd (copy_loop q rd s)) = chunk_size s \<and>
   curr_path (snd (copy_loop q rd s)) = curr_path s"
proof (induction q rd s rule: copy_loop.induct)
  case (1 q rd s)
  show ?case
  proof (cases q rd s rule: copy_loop_cases)
    case (step buffer rd' b)
    from "1.IH" [OF step(1) refl step(2) step(3)] step(4) show ?thesis by simp
  qed simp_all
qed

lemma init_bar_frame:
  "stdin (snd (init_bar s)) = stdin s" "stdout (snd (init_bar s)) = stdout s"
  "logged (snd (init_bar s)) = logged s" "files (snd (init_bar s)) = files s"
  "chunk_size (snd (init_bar s)) = chunk_size s"
  by (auto simp: init_bar_def split: option.splits sum.splits)

lemma close_bar_frame [simp]:
  "stdin (close_bar s) = stdin s" "stdout (close_bar s) = stdout s"
  "logged (close_bar s) = logged s" "files (close_bar s) = files s"
  "chunk_size (close_bar s) = chunk_size s"
  by (simp_all add: close_bar_def)

lemma transfer_frame:
  "stdin (snd (transfer b src dest s)) = stdin s \<and> stdout (snd (transfer b src dest s)) = stdout s \<and>
   logged (snd (transfer b src dest s)) = logged s"
  using copy_loop_frame by (auto simp: transfer_def split: sum.splits)

lemma copy_body_terminal:
  "stdin (snd (copy_body src dest s)) = stdin s \<and> stdout (snd (copy_body src dest s)) = stdout s"
proof -
  obtain o1 s1 where i: "init_bar (s\<lparr>curr_path := Some src\<rparr>) = (o1, s1)"
    by (cases "init_bar (s\<lparr>curr_path := Some src\<rparr>)")
  have s1: "stdin s1 = stdin s" "stdout s1 = stdout s"
    using init_bar_frame(1,2) [of "s\<lparr>curr_path := Some src\<rparr>"] i by simp_all
  show ?thesis
  proof (cases "o1 = Return \<and> (\<exists>b. is_binary (files s1) src = Inr b)")
    case False
    with i s1 show ?thesis
      by (cases o1; cases "is_binary (files s1) src") (auto simp: copy_body_def)
  next
    case True
    then obtain b where b: "o1 = Return" "is_binary (files s1) src = Inr b" by auto
    obtain o2 s2 where t: "transfer b src dest s1 = (o2, s2)" by (cases "transfer b src dest s1")
    with transfer_frame [of b src dest s1] s1 have "stdin s2 = stdin s" "stdout s2 = stdout s"
      by simp_all
    with i b t show ?thesis
      by (cases o2) (auto simp: copy_body_def Let_def)
  qed
qed

text \<open>The prompt always prints the question and consumes input lines.\<close>

lemma ask_prints:
  "\<exists>more. snd (snd (ask dest inp out)) = out @ question dest # ''> '' # more"
proof (induction inp arbitrary: out)
  case Nil
  show ?case by simp
next
  case (Cons line rest)
  from Cons [of "out @ [question dest, ''> '']"] show ?case
    by (auto simp: Let_def)
qed

lemma prompted_same: "stdout s' = stdout s \<Longrightarrow> \<not> prompted dest s s'"
  by (simp add: prompted_def)

lemma prompted_ask:
  "stdout s' = snd (snd (ask dest inp (stdout s))) \<Longrightarrow> prompted dest s s'"
  using ask_prints [of dest inp "stdout s"] by (auto simp: prompted_def)

lemma copy_file_prompts:
  "prompted dest s (snd (copy_file src dest s)) = path_exists (files s) dest"
proof (cases "path_exists (files s) dest")
  case False
  then have "stdout (snd (copy_file src dest s)) = stdout s"
    using copy_body_terminal [of src dest s] by (simp add: copy_file_def)
  with False show ?thesis by (simp add: prompted_same)
next
  case True
  obtain d inp out where a: "ask dest (stdin s) (stdout s) = (d, inp, out)"
    by (cases "ask dest (stdin s) (stdout s)") auto
  have "stdout (snd (copy_file src dest s)) = out"
    using True a copy_body_terminal [of src dest "s\<lparr>stdin := inp, stdout := out\<rparr>"]
    by (cases d) (simp_all add: copy_file_def)
  with a have "stdout (snd (copy_file src dest s)) = snd (snd (ask dest (stdin s) (stdout s)))"
    by simp
  from prompted_ask [OF this] True show ?thesis by simp
qed

lemma link_file_terminal:
   "stdout (snd (link_file src dest s)) = stdout s \<and> stdin (snd (link_file src dest s)) = stdin s"
  by (auto simp: link_file_def split: sum.splits)

subsection \<open>Facts about the chunks\<close>







lemma chunked_unwritten: "written es = [] \<Longrightarrow> advanced es = [] \<Longrightarrow> chunked c b es"
  by (simp add: chunked_def)

lemma open_reader_mode [simp]: "binary_mode (open_reader b bs) = b"
  by (simp add: open_reader_def)


lemma init_bar_Return:
  "init_bar s = (Return, s1) \<Longrightarrow>
     bar s1 \<noteq> None \<and> chunk_size s1 = chunk_size s \<and> (\<exists>k d. events s1 = events s @ [Bar_new k d])"
  by (auto simp: init_bar_def split: option.splits sum.splits)




subsection \<open>Facts about what is read\<close>

lemma translate_newlines_id: "CR \<notin> set cs \<Longrightarrow> translate_newlines cs = cs"
  by (induction cs rule: translate_newlines.induct) auto

lemma utf8_decode_no_CR:
  assumes "utf8_decode final bs = Decoded cs inc" "0x0D \<notin> set bs"
  shows "CR \<notin> set cs"
proof
  assume "CR \<in> set cs"
  then have "0x0D \<in> set (concat cs)" by (auto simp: CR_def intro!: bexI [of _ "[0x0D]"])
  with utf8_decode_concat [OF assms(1)] assms(2) show False by auto
qed

lemma decode_block_cr_free:
  assumes "decode_block final block r = Inr r'" "\<not> t_cr r" "0x0D \<notin> set (t_dbuf r @ block)"
  shows "\<exists>cs. t_chars r' = t_chars r @ cs \<and> concat cs @ t_dbuf r' = t_dbuf r @ block \<and>
              \<not> t_cr r' \<and> t_rest r' = t_rest r \<and> (final \<longrightarrow> t_dbuf r' = [])"
proof -
  from assms(1) obtain cs inc where d: "utf8_decode final (t_dbuf r @ block) = Decoded cs inc"
    by (auto simp: decode_block_def split: decoded.splits)
  from utf8_decode_no_CR [OF d assms(3)] have n: "CR \<notin> set cs" .
  have l: "cs \<noteq> [] \<Longrightarrow> last cs \<noteq> CR" using n last_in_set by metis
  from assms(1,2) d n l
  have r': "r' = r\<lparr>t_dbuf := inc, t_cr := False, t_chars := t_chars r @ cs\<rparr>"
    by (auto simp: decode_block_def Let_def translate_newlines_id)
  have "final \<longrightarrow> inc = []" using utf8_decode_final d by auto
  with utf8_decode_concat [OF d] r' show ?thesis by auto
qed

lemma read_chunk_cr_free:
  assumes "read_chunk r = Inr (eof, r')" "cr_free_text r"
  shows "pending r' = pending r \<and> cr_free_text r' \<and> (eof \<longrightarrow> t_rest r' = [] \<and> t_dbuf r' = [])"
proof -
  let ?block = "take CHUNK_SIZE (t_rest r)"
  let ?r0 = "r\<lparr>t_rest := drop CHUNK_SIZE (t_rest r)\<rparr>"
  from assms(1) have d: "decode_block (?block = []) ?block ?r0 = Inr r'" and e: "eof = (?block = [])"
    by (auto simp: read_chunk_def Let_def split: sum.splits)
  have "set ?block \<subseteq> set (t_rest r)" by (rule set_take_subset)
  with assms(2) have a: "\<not> t_cr ?r0" "0x0D \<notin> set (t_dbuf ?r0 @ ?block)"
    by (auto simp: cr_free_text_def pending_def)
  from decode_block_cr_free [OF d a] obtain cs where
    cs: "t_chars r' = t_chars r @ cs" "concat cs @ t_dbuf r' = t_dbuf r @ ?block"
      "\<not> t_cr r'" "t_rest r' = drop CHUNK_SIZE (t_rest r)" "(?block = []) \<longrightarrow> t_dbuf r' = []"
    by auto
  have "pending r' = concat (t_chars r) @ (concat cs @ t_dbuf r') @ drop CHUNK_SIZE (t_rest r)"
    by (simp add: pending_def cs(1,4))
  also have "\<dots> = pending r" by (simp add: cs(2) pending_def)
  finally have p: "pending r' = pending r" .
  have "?block = [] \<Longrightarrow> t_rest r' = []" using cs(4) CHUNK_SIZE_pos by (cases "t_rest r") auto
  with p cs(3,5) e assms(2) show ?thesis by (auto simp: cr_free_text_def)
qed

lemma fill_cr_free:
  "fill k r = Inr r' \<Longrightarrow> cr_free_text r \<Longrightarrow>
     pending r' = pending r \<and> cr_free_text r' \<and>
     (length (t_chars r') < k \<longrightarrow> t_rest r' = [] \<and> t_dbuf r' = [])"
proof (induction k r rule: fill.induct)
  case (1 k r)
  show ?case
  proof (cases "k \<le> length (t_chars r)")
    case True
    with "1.prems" show ?thesis by (simp add: fill.simps [of k r])
  next
    case False
    with "1.prems" obtain eof r1 where rc: "read_chunk r = Inr (eof, r1)"
      by (auto simp: fill.simps [of k r] split: sum.splits)
    note c = read_chunk_cr_free [OF rc "1.prems"(2)]
    show ?thesis
    proof (cases eof)
      case True
      with "1.prems" False rc have "r' = r1" by (simp add: fill.simps [of k r])
      with c True show ?thesis by simp
    next
      case f: False
      with "1.prems" False rc have "fill k r1 = Inr r'" by (simp add: fill.simps [of k r])
      from "1.IH" [OF False rc refl f this] c show ?thesis by simp
    qed
  qed
qed

lemma text_read_cr_free:
  assumes "text_read n r = Inr (buffer, r')" "cr_free_text r" "n \<noteq> 0"
  shows "concat buffer @ pending r' = pending r \<and> cr_free_text r' \<and>
         (buffer = [] \<longrightarrow> pending r' = [])"
proof (cases "n < 0")
  case True
  with assms(1) obtain r1 where d: "decode_block True (t_rest r) (r\<lparr>t_rest := []\<rparr>) = Inr r1"
    and b: "buffer = t_chars r1" and r': "r' = r1\<lparr>t_chars := []\<rparr>"
    by (auto simp: text_read_def split: sum.splits)
  from assms(2) have a: "\<not> t_cr (r\<lparr>t_rest := []\<rparr>)"
    "0x0D \<notin> set (t_dbuf (r\<lparr>t_rest := []\<rparr>) @ t_rest r)"
    by (auto simp: cr_free_text_def pending_def)
  from decode_block_cr_free [OF d a] obtain cs where
    cs: "t_chars r1 = t_chars r @ cs" "concat cs @ t_dbuf r1 = t_dbuf r @ t_rest r"
      "\<not> t_cr r1" "t_rest r1 = []" "t_dbuf r1 = []"
    by auto
  have p: "pending r' = []" by (simp add: pending_def r' cs)
  have "concat buffer = pending r" using cs(2) by (simp add: b cs(1,5) pending_def)
  with p cs(3) show ?thesis by (simp add: cr_free_text_def r')
next
  case False
  with assms(1) obtain r1 where d: "fill (nat n) r = Inr r1"
    and b: "buffer = take (nat n) (t_chars r1)" and r': "r' = r1\<lparr>t_chars := drop (nat n) (t_chars r1)\<rparr>"
    by (auto simp: text_read_def split: sum.splits)
  note f = fill_cr_free [OF d assms(2)]
  have "concat buffer @ pending r' = concat (take (nat n) (t_chars r1) @ drop (nat n) (t_chars r1))
      @ t_dbuf r1 @ t_rest r1"
    unfolding b r' pending_def by (simp flip: concat_append)
  then have c: "concat buffer @ pending r' = pending r" using f by (simp add: pending_def)
  then have "set (pending r') \<subseteq> set (pending r)" by (metis set_append sup_ge2)
  with f assms(2) have cf: "cr_free_text r'" by (auto simp: cr_free_text_def r')
  have "pending r' = []" if "buffer = []"
  proof -
    from that b False assms(3) have "t_chars r1 = []" by (cases "t_chars r1") auto
    with f False assms(3) show ?thesis by (simp add: pending_def r')
  qed
  with c cf show ?thesis by simp
qed

lemma file_read_remaining:
  assumes "file_read n rd = Inr (buffer, rd')" "cr_free rd" "n \<noteq> 0"
  shows "encode buffer @ remaining rd' = remaining rd \<and> cr_free rd' \<and>
         (chunk_len buffer = 0 \<longrightarrow> remaining rd' = [])"
proof (cases rd)
  case (Binary_reader bs)
  with assms show ?thesis
    by (auto simp: binary_read_def split: if_splits)
next
  case (Text_reader r)
  with assms obtain b r' where t: "text_read n r = Inr (b, r')" "buffer = Str b" "rd' = Text_reader r'"
    by (auto split: sum.splits)
  from text_read_cr_free [OF t(1)] assms(2,3) Text_reader t(2,3) show ?thesis by simp
qed

lemma write_chunk_files:
  "files s q = Some (File r w bs) \<Longrightarrow>
   files (write_chunk q b s) = (files s)(q \<mapsto> File r w (bs @ encode b))"
  by (simp add: write_chunk_def)

lemma copy_loop_content:
  assumes "fst (copy_loop q rd s) = Return" "files s q = Some (File r w bs)"
    "chunk_size s \<noteq> 0" "cr_free rd"
  shows "files (snd (copy_loop q rd s)) = (files s)(q \<mapsto> File r w (bs @ remaining rd))"
  using assms
proof (induction q rd s arbitrary: bs rule: copy_loop.induct)
  case (1 q rd s)
  show ?case
  proof (cases q rd s rule: copy_loop_cases)
    case (raised e)
    with "1.prems" show ?thesis by simp
  next
    case (finished buffer rd')
    from file_read_remaining [OF finished(1) "1.prems"(4,3)] finished(2)
    have "remaining rd = []" by (cases buffer) auto
    with finished(3) "1.prems"(2) show ?thesis by (simp add: fun_upd_idem)
  next
    case (no_bar buffer rd')
    with "1.prems" show ?thesis by simp
  next
    case (step buffer rd' b)
    let ?s2 = "bar_step (chunk_len buffer) b (write_chunk q buffer s)"
    note rem = file_read_remaining [OF step(1) "1.prems"(4,3)]
    have f2: "files ?s2 = (files s)(q \<mapsto> File r w (bs @ encode buffer))"
      using write_chunk_files [OF "1.prems"(2)] by simp
    then have a: "files ?s2 q = Some (File r w (bs @ encode buffer))" by simp
    have b: "fst (copy_loop q rd' ?s2) = Return" using "1.prems"(1) step(4) by simp
    have c: "chunk_size ?s2 \<noteq> 0" using "1.prems"(3) by simp
    have d: "cr_free rd'" using rem by simp
    have e: "(bs @ encode buffer) @ remaining rd' = bs @ remaining rd" using rem by simp
    have "files (snd (copy_loop q rd' ?s2)) =
            (files ?s2)(q \<mapsto> File r w ((bs @ encode buffer) @ remaining rd'))"
      by (rule "1.IH" [OF step(1) refl step(2) step(3) b a c d])
    also have "\<dots> = (files s)(q \<mapsto> File r w (bs @ remaining rd))"
      unfolding e f2 by (rule fun_upd_upd)
    finally show ?thesis using step(4) by simp
  qed
qed

lemma open_reader_remaining [simp]: "remaining (open_reader b bs) = bs"
  by (simp add: open_reader_def text_open_def pending_def)

lemma open_reader_cr_free: "b \<or> 0x0D \<notin> set bs \<Longrightarrow> cr_free (open_reader b bs)"
  by (auto simp: open_reader_def text_open_def pending_def cr_free_text_def)

lemma open_read_file:
  "open_read f p = Inr q \<Longrightarrow> resolve f p = Some q \<and> (\<exists>w bs. f q = Some (File True w bs))"
  by (auto simp: open_read_def split: option.splits node.splits if_splits)

lemma open_write_file:
  "open_write f p = Inr (q, f') \<Longrightarrow>
     resolve f p = Some q \<and> (\<exists>r w. f' = f(q \<mapsto> File r w []))"
  by (auto simp: open_write_def split: option.splits node.splits if_splits sum.splits)

lemma transfer_content:
  assumes "fst (transfer b src dest s) = Return"
    and "resolve (files s) src = Some qs" "resolve (files s) dest = Some qd" "qs \<noteq> qd"
    and "chunk_size s \<noteq> 0"
    and "b \<or> 0x0D \<notin> set (file_content (files s) qs)"
  shows "file_content (files (snd (transfer b src dest s))) qd = file_content (files s) qs \<and>
         (\<forall>p. p \<noteq> qd \<longrightarrow> files (snd (transfer b src dest s)) p = files s p)"
proof -
  from assms(1) obtain q1 where o1: "open_read (files s) src = Inr q1"
    by (auto simp: transfer_def split: sum.splits)
  with assms(1) obtain q2 f' where o2: "open_write (files s) dest = Inr (q2, f')"
    by (auto simp: transfer_def split: sum.splits)
  from open_read_file [OF o1] assms(2) have q1: "q1 = qs" by simp
  from open_write_file [OF o2] assms(3) obtain r w where
    q2: "q2 = qd" and f': "f' = (files s)(qd \<mapsto> File r w [])" by auto
  let ?rd = "open_reader b (file_content f' qs)"
  let ?s1 = "s\<lparr>files := f'\<rparr>"
  have t: "transfer b src dest s = copy_loop qd ?rd ?s1"
    using o1 o2 q1 q2 by (simp add: transfer_def)
  have c: "file_content f' qs = file_content (files s) qs"
    using assms(4) by (simp add: f' file_content_def)
  have "fst (copy_loop qd ?rd ?s1) = Return" using assms(1) t by simp
  moreover have "files ?s1 qd = Some (File r w [])" by (simp add: f')
  moreover have "chunk_size ?s1 \<noteq> 0" using assms(5) by simp
  moreover have "cr_free ?rd" using assms(6) c by (simp add: open_reader_cr_free)
  ultimately have "files (snd (copy_loop qd ?rd ?s1)) =
      (files ?s1)(qd \<mapsto> File r w ([] @ remaining ?rd))"
    by (rule copy_loop_content)
  with t c show ?thesis by (simp add: f' file_content_def)
qed

text \<open>A copy is complete when \<open>copy_file\<close> logs its success; that is the end of the
  first branch of the \<open>try\<close> statement.\<close>

lemma copy_body_complete:
  assumes "logged (snd (copy_body src dest s)) = logged s @ [(INFO, Success_copying src dest)]"
  shows "\<exists>b s1. is_binary (files s) src = Inr b \<and> files s1 = files s \<and>
           chunk_size s1 = chunk_size s \<and>
           fst (transfer b src dest s1) = Return \<and>
           files (snd (copy_body src dest s)) = files (snd (transfer b src dest s1))"
proof -
  let ?s0 = "s\<lparr>curr_path := Some src\<rparr>"
  obtain o1 s1 where i: "init_bar ?s0 = (o1, s1)" by (cases "init_bar ?s0")
  have s1: "files s1 = files s" "logged s1 = logged s" "chunk_size s1 = chunk_size s"
    using init_bar_frame(3,4,5) [of ?s0] i by simp_all
  have r: "o1 = Return"
  proof (rule ccontr)
    assume "o1 \<noteq> Return"
    with i have "snd (copy_body src dest s) = s1" by (cases o1) (simp_all add: copy_body_def)
    with assms s1 show False by simp
  qed
  obtain b where b: "is_binary (files s1) src = Inr b"
  proof (cases "is_binary (files s1) src")
    case (Inl e)
    with i r have "snd (copy_body src dest s) = s1" by (simp add: copy_body_def)
    with assms s1 show ?thesis by simp
  qed
  obtain o2 s2 where t: "transfer b src dest s1 = (o2, s2)" by (cases "transfer b src dest s1")
  have l2: "logged s2 = logged s" using transfer_frame [of b src dest s1] t s1 by simp
  have "o2 = Return"
  proof (cases o2)
    case (Raise e)
    with i r b t have "logged (snd (copy_body src dest s)) = logged s2 @ [(ERROR, Error_copying src dest e)]"
      by (simp add: copy_body_def Let_def)
    with assms l2 show ?thesis by simp
  next
    case (Exit c)
    with i r b t have "snd (copy_body src dest s) = s2" by (simp add: copy_body_def)
    with assms l2 show ?thesis by simp
  qed
  moreover from this i r b t have "files (snd (copy_body src dest s)) = files s2"
    by (simp add: copy_body_def Let_def)
  ultimately show ?thesis using b s1 t by (intro exI [of _ b] exI [of _ s1]) simp
qed

lemma copy_file_complete:
  assumes "logged (snd (copy_file src dest s)) = logged s @ [(INFO, Success_copying src dest)]"
  shows "\<exists>s0. files s0 = files s \<and> chunk_size s0 = chunk_size s \<and> logged s0 = logged s \<and>
           snd (copy_file src dest s) = snd (copy_body src dest s0)"
proof (cases "path_exists (files s) dest")
  case False
  then show ?thesis by (intro exI [of _ s]) (simp add: copy_file_def)
next
  case True
  obtain d inp out where a: "ask dest (stdin s) (stdout s) = (d, inp, out)"
    by (cases "ask dest (stdin s) (stdout s)") auto
  show ?thesis
  proof (cases d)
    case Overwrite
    with True a show ?thesis
      by (intro exI [of _ "s\<lparr>stdin := inp, stdout := out\<rparr>"]) (simp add: copy_file_def)
  qed (use True a assms in \<open>simp_all add: copy_file_def\<close>)
qed

subsection \<open>Facts about decoding in blocks\<close>

text \<open>Decoding in blocks: the decoder does not fail on a prefix of well-formed input, and
  what it keeps, followed by the rest, is well-formed again.\<close>

lemma trail_prefix:
  "trail k lo hi (xs @ ys) = Complete \<Longrightarrow>
     trail k lo hi xs = (if k \<le> length xs then Complete else Truncated)"
  by (induction k lo hi xs rule: trail.induct) (auto split: if_splits)


lemma prepend_error: "prepend c d = Decode_error \<longleftrightarrow> d = Decode_error"
  by (cases d) auto

lemma utf8_decode_prefix:
  "well_formed (a @ b) \<Longrightarrow>
     \<exists>cs inc. utf8_decode False a = Decoded cs inc \<and> well_formed (inc @ b)"
proof (induction "False" a rule: utf8_decode.induct)
  case 1
  then show ?case by simp
next
  case (2 x xs)
  from "2.prems" obtain k lo hi where l: "lead x = Some (k, lo, hi)"
    by (auto simp: well_formed_def split: option.splits)
  with "2.prems" have t: "trail k lo hi (xs @ b) = Complete"
    by (cases "trail k lo hi (xs @ b)") (auto simp: well_formed_def)
  show ?case
  proof (cases "k \<le> length xs")
    case False
    with trail_prefix [OF t] have "trail k lo hi xs = Truncated" by simp
    with l have "utf8_decode False (x # xs) = Decoded [] (x # xs)" by simp
    with "2.prems" show ?thesis by simp
  next
    case True
    with trail_prefix [OF t] have c: "trail k lo hi xs = Complete" by simp
    from "2.prems" l t True have "well_formed (drop k xs @ b)"
      by (simp add: well_formed_def prepend_error)
    from "2.hyps" [OF l refl refl c this] obtain cs inc where
      "utf8_decode False (drop k xs) = Decoded cs inc" "well_formed (inc @ b)" by auto
    with l c show ?thesis by simp
  qed
qed

lemma decode_block_Inr:
  "utf8_decode final (t_dbuf r @ block) = Decoded cs inc \<Longrightarrow>
     \<exists>r'. decode_block final block r = Inr r' \<and> t_dbuf r' = inc \<and> t_rest r' = t_rest r"
  by (simp add: decode_block_def Let_def)

lemma read_chunk_valid:
  assumes "valid_reader r"
  shows "\<exists>eof r'. read_chunk r = Inr (eof, r') \<and> valid_reader r'"
proof (cases "t_rest r = []")
  case True
  with assms obtain cs inc where d: "utf8_decode True (t_dbuf r @ []) = Decoded cs inc"
    by (cases "utf8_decode True (t_dbuf r)") (auto simp: valid_reader_def well_formed_def)
  from utf8_decode_final [OF d] have i: "inc = []" .
  let ?r0 = "r\<lparr>t_rest := drop CHUNK_SIZE (t_rest r)\<rparr>"
  from d have "utf8_decode True (t_dbuf ?r0 @ []) = Decoded cs inc" by simp
  from decode_block_Inr [OF this]
  obtain r' where "decode_block True [] ?r0 = Inr r'"
    "t_dbuf r' = inc" "t_rest r' = drop CHUNK_SIZE (t_rest r)" by auto
  with True i show ?thesis
    by (auto simp: read_chunk_def valid_reader_def well_formed_def)
next
  case False
  let ?block = "take CHUNK_SIZE (t_rest r)"
  have ne: "?block \<noteq> []" using False CHUNK_SIZE_pos by (cases "t_rest r") auto
  have "well_formed ((t_dbuf r @ ?block) @ drop CHUNK_SIZE (t_rest r))"
    using assms by (simp add: valid_reader_def)
  from utf8_decode_prefix [OF this] obtain cs inc where
    d: "utf8_decode False (t_dbuf r @ ?block) = Decoded cs inc"
    and w: "well_formed (inc @ drop CHUNK_SIZE (t_rest r))" by auto
  let ?r0 = "r\<lparr>t_rest := drop CHUNK_SIZE (t_rest r)\<rparr>"
  from d have "utf8_decode False (t_dbuf ?r0 @ ?block) = Decoded cs inc" by simp
  from decode_block_Inr [OF this]
  obtain r' where "decode_block False ?block ?r0 = Inr r'"
    "t_dbuf r' = inc" "t_rest r' = drop CHUNK_SIZE (t_rest r)" by auto
  with ne w show ?thesis
    by (auto simp: read_chunk_def valid_reader_def)
qed

lemma fill_valid: "valid_reader r \<Longrightarrow> \<exists>r'. fill k r = Inr r' \<and> valid_reader r'"
proof (induction k r rule: fill.induct)
  case (1 k r)
  show ?case
  proof (cases "k \<le> length (t_chars r)")
    case True
    with "1.prems" show ?thesis by (simp add: fill.simps [of k r])
  next
    case False
    from read_chunk_valid [OF "1.prems"] obtain eof r1 where
      rc: "read_chunk r = Inr (eof, r1)" "valid_reader r1" by auto
    show ?thesis
    proof (cases eof)
      case True
      with False rc show ?thesis by (simp add: fill.simps [of k r])
    next
      case f: False
      from "1.IH" [OF False rc(1) refl f rc(2)] False rc(1) f show ?thesis
        by (simp add: fill.simps [of k r])
    qed
  qed
qed

lemma text_read_well_formed:
  "well_formed bs \<Longrightarrow> 0 \<le> n \<Longrightarrow> \<exists>x. text_read n (text_open bs) = Inr x"
  using fill_valid [of "text_open bs" "nat n"]
  by (auto simp: text_read_def valid_reader_def text_open_def)

lemma text_read_first_block:
  assumes "utf8_decode False (take CHUNK_SIZE bs) = Decode_error" "0 < n"
  shows "text_read n (text_open bs) = Inl UnicodeDecodeError"
proof -
  from assms(1) have "take CHUNK_SIZE bs \<noteq> []" by (cases "take CHUNK_SIZE bs") auto
  with assms(1) have "read_chunk (text_open bs) = Inl UnicodeDecodeError"
    by (simp add: read_chunk_def decode_block_def text_open_def)
  then have "fill (nat n) (text_open bs) = Inl UnicodeDecodeError"
    using assms(2) by (simp add: fill.simps [of "nat n" "text_open bs"]) (simp add: text_open_def)
  with assms(2) show ?thesis
    by (simp add: text_read_def)
qed

lemma text_read_error: "text_read n r = Inl e \<Longrightarrow> e = UnicodeDecodeError"
proof -
  have d: "decode_block final block r0 = Inl e \<Longrightarrow> e = UnicodeDecodeError" for final block r0
    by (auto simp: decode_block_def Let_def split: decoded.splits)
  have c: "read_chunk r0 = Inl e \<Longrightarrow> e = UnicodeDecodeError" for r0
    using d by (auto simp: read_chunk_def Let_def split: sum.splits)
  have f: "fill k r0 = Inl e \<Longrightarrow> e = UnicodeDecodeError" for k r0
  proof (induction k r0 rule: fill.induct)
    case (1 k r0)
    show ?case
    proof (cases "read_chunk r0")
      case (Inl e')
      with "1.prems" c [of r0] show ?thesis
        by (auto simp: fill.simps [of k r0] split: if_splits)
    next
      case (Inr x)
      obtain eof r1 where x: "x = (eof, r1)" by (cases x)
      with "1.prems" Inr "1.IH" [of x eof r1] show ?thesis
        by (auto simp: fill.simps [of k r0] split: if_splits)
    qed
  qed
  assume "text_read n r = Inl e"
  with d f show ?thesis by (auto simp: text_read_def split: if_splits sum.splits)
qed

subsection \<open>Facts about the chunks of the source\<close>

lemma prepends_Decoded [simp]: "prepends cs (Decoded cs' inc) = Decoded (cs @ cs') inc"
  by (induction cs) auto

lemma prepends_error [simp]: "prepends cs Decode_error = Decode_error"
  by (induction cs) auto




lemma chars_of_Nil [simp]: "chars_of [] = []" "well_formed []"
  by (simp_all add: chars_of_def well_formed_def)

lemma CR_neq_LF [simp]: "CR \<noteq> LF" "LF \<noteq> CR"
  by (simp_all add: CR_def LF_def)
















lemma ahead_text_open [simp]: "ahead (text_open bs) = text_items bs"
  by (simp add: ahead_def text_open_def text_items_def)

lemma rest_chunks_open_reader [simp]:
  "rest_chunks (nat c) (open_reader b bs) = source_chunks c b bs"
  by (simp add: open_reader_def source_chunks_def)

lemma valid_open_reader [simp]: "valid (open_reader b bs) = (b \<or> well_formed bs)"
  by (simp add: open_reader_def valid_reader_def text_open_def)








subsection \<open>Facts about the answers and the examples\<close>

lemma ask_junk:
  "\<forall>l\<in>set junk. lower l \<notin> {''s'', ''e'', ''o''} \<Longrightarrow>
   ask dest (junk @ inp) out = ask dest inp (out @ asked dest junk)"
  by (induction junk arbitrary: out) (auto simp: Let_def asked_def)

lemma ask_answer:
  assumes "\<forall>l\<in>set junk. lower l \<notin> {''s'', ''e'', ''o''}"
  shows "lower line = ''s'' \<Longrightarrow>
           ask dest (junk @ line # rest) out = (Skip, rest, out @ asked dest (junk @ [line]))"
    and "lower line = ''e'' \<Longrightarrow>
           ask dest (junk @ line # rest) out = (Abort, rest, out @ asked dest (junk @ [line]))"
    and "lower line = ''o'' \<Longrightarrow>
           ask dest (junk @ line # rest) out = (Overwrite, rest, out @ asked dest (junk @ [line]))"
  using ask_junk [OF assms] by (simp_all add: Let_def asked_def)

text \<open>A path that is not a link resolves to itself.\<close>

lemma resolve_plain: "(\<And>t. f p \<noteq> Some (Symlink t)) \<Longrightarrow> resolve f p = Some p"
  by (cases "f p"; cases "the (f p)") (auto simp: resolve_def follow.simps [of 40 f p])

lemma bins_exists: "path_exists bins ''dest.bin''"
  by (simp add: path_exists_def resolve_plain bins_def)

section \<open>The claims\<close>

subsection \<open>C1: the target of the new link\<close>

text \<open>When \<open>os.symlink\<close> makes the link, and that all its errors are \<open>OSError\<close>s.\<close>

lemma os_symlink_Inr:
  "os_symlink f src dest = Inr f' \<longleftrightarrow>
     src \<noteq> [] \<and> parent_dir f dest = Inr True \<and> f dest = None \<and> f' = f(dest \<mapsto> Symlink src)"
  by (auto simp: os_symlink_def split: sum.splits)

lemma parent_dir_OSError: "parent_dir f q = Inl e \<Longrightarrow> is_OSError e"
  by (auto simp: parent_dir_def split: if_splits option.splits node.splits)

lemma os_symlink_OSError: "os_symlink f src dest = Inl e \<Longrightarrow> is_OSError e"
  by (auto simp: os_symlink_def split: if_splits sum.splits dest: parent_dir_OSError)

lemma link_file_cases:
  "link_file src dest s =
     (case os_symlink (files s) src dest of
        Inr f' \<Rightarrow>
          (Return, s\<lparr>files := f', logged := logged s @ [(ERROR, Success_linking src dest)]\<rparr>)
      | Inl e \<Rightarrow> (Return, s\<lparr>logged := logged s @ [(ERROR, Failed_to_link src dest)]\<rparr>))"
  by (auto simp: link_file_def split: sum.splits dest: os_symlink_OSError)

text \<open>A link into a directory that is not there fails, and the failure is logged.\<close>

lemma link_file_missing_parent:
  "link_file ''A/c'' ''nodir/c'' (new_worker 4096 tree []) =
     (Return, new_worker 4096 tree [] \<lparr>logged := [(ERROR, Failed_to_link ''A/c'' ''nodir/c'')]\<rparr>)"
  by (simp add: link_file_cases os_symlink_def parent_dir_def dirname_def resolve_def follow.simps
      new_worker_def tree_def)

text \<open>
  Claim C1 says that the link made by \<open>link_file\<close> has the raw target of the source
  link. It does not: \<open>link_file\<close> passes \<open>src\<close> itself to \<open>os.symlink\<close>, and never
  reads the source link. In the scenario's tree, \<open>A/c\<close> points to \<open>/tmp/target\<close>, and
  the link made at \<open>dest/c\<close> points to \<open>A/c\<close>.
\<close>

theorem link_file_target_counterexample:
  "readlink tree ''A/c'' = Some ''/tmp/target'' \<and>
   link_file ''A/c'' ''dest/c'' (new_worker 4096 tree []) =
     (Return,
      new_worker 4096 (tree(''dest/c'' \<mapsto> Symlink ''A/c'')) []
        \<lparr>logged := [(ERROR, Success_linking ''A/c'' ''dest/c'')]\<rparr>) \<and>
   readlink (files (snd (link_file ''A/c'' ''dest/c'' (new_worker 4096 tree [])))) ''dest/c''
     = Some ''A/c'' \<and>
   readlink (files (snd (link_file ''A/c'' ''dest/c'' (new_worker 4096 tree [])))) ''dest/c''
     \<noteq> readlink tree ''A/c''"
  by (simp add: link_file_cases os_symlink_def parent_dir_def dirname_def resolve_def follow.simps
      new_worker_def tree_def readlink_def)

text \<open>
  Claim C1, amended: after \<open>link_file src dest\<close> has succeeded, that is, has logged the
  success of the link, \<open>dest\<close> is a symbolic link whose raw target string is the source
  path \<open>src\<close> as it was passed (for a source that is a link: the path of that link, not
  the target read from it); the call has returned and no other path has changed.
\<close>

theorem link_file_target:
  assumes "logged (snd (link_file src dest s)) = logged s @ [(ERROR, Success_linking src dest)]"
  shows "fst (link_file src dest s) = Return \<and>
         readlink (files (snd (link_file src dest s))) dest = Some src \<and>
         (\<forall>p. p \<noteq> dest \<longrightarrow> files (snd (link_file src dest s)) p = files s p)"
proof (cases "os_symlink (files s) src dest")
  case (Inl e)
  with assms show ?thesis by (simp add: link_file_cases)
next
  case (Inr f')
  then have "f' = (files s)(dest \<mapsto> Symlink src)" by (simp add: os_symlink_Inr)
  with Inr show ?thesis by (simp add: link_file_cases readlink_def)
qed

theorem link_file_target_witness:
  "readlink (files (new_worker 4096 tree [])) ''A/c'' = Some ''/tmp/target'' \<and>
   logged (snd (link_file ''A/c'' ''dest/c'' (new_worker 4096 tree []))) =
     logged (new_worker 4096 tree []) @ [(ERROR, Success_linking ''A/c'' ''dest/c'')] \<and>
   fst (link_file ''A/c'' ''dest/c'' (new_worker 4096 tree [])) = Return \<and>
   readlink (files (snd (link_file ''A/c'' ''dest/c'' (new_worker 4096 tree [])))) ''dest/c''
     = Some ''A/c'' \<and>
   files (snd (link_file ''A/c'' ''dest/c'' (new_worker 4096 tree []))) ''A/c''
     = Some (Symlink ''/tmp/target'')"
proof -
  have h: "logged (snd (link_file ''A/c'' ''dest/c'' (new_worker 4096 tree []))) =
      logged (new_worker 4096 tree []) @ [(ERROR, Success_linking ''A/c'' ''dest/c'')]"
    by (simp add: link_file_cases os_symlink_def parent_dir_def dirname_def resolve_def
        follow.simps new_worker_def tree_def)
  have t: "files (new_worker 4096 tree []) ''A/c'' = Some (Symlink ''/tmp/target'')"
    by (simp add: new_worker_def tree_def)
  have r: "readlink (files (new_worker 4096 tree [])) ''A/c'' = Some ''/tmp/target''"
    by (simp add: readlink_def t)
  from link_file_target [OF h] h t r show ?thesis by simp
qed

subsection \<open>C10: the level of the messages of \<open>link_file\<close>\<close>

text \<open>
  Claim C10: \<open>link_file\<close> adds one record to the log, at the level \<open>ERROR\<close> in both
  cases: the success message when \<open>os.symlink\<close> made the link, the failure message when
  it raised. Nothing goes to the level \<open>INFO\<close>.
\<close>

theorem link_file_logs_error_level:
  "logged (snd (link_file src dest s)) =
     logged s @
       [(ERROR, case os_symlink (files s) src dest of
                  Inr f' \<Rightarrow> Success_linking src dest
                | Inl e \<Rightarrow> Failed_to_link src dest)]"
  by (simp add: link_file_cases split: sum.splits)

subsection \<open>C4: when the prompt appears\<close>

text \<open>
  Claim C4 says that a copy and a link onto an existing destination both prompt.
  \<open>link_file\<close> has no prompt at all: with a file already at \<open>dest/c\<close> and an answer
  waiting on the standard input, it prints nothing, reads nothing, and logs that the link
  failed.
\<close>

theorem link_file_prompt_counterexample:
  "path_exists (tree(''dest/c'' \<mapsto> File True True [])) ''dest/c'' \<and>
   link_file ''A/c'' ''dest/c'' (new_worker 4096 (tree(''dest/c'' \<mapsto> File True True [])) [''o'']) =
     (Return,
      new_worker 4096 (tree(''dest/c'' \<mapsto> File True True [])) [''o'']
        \<lparr>logged := [(ERROR, Failed_to_link ''A/c'' ''dest/c'')]\<rparr>) \<and>
   stdout (snd (link_file ''A/c'' ''dest/c''
     (new_worker 4096 (tree(''dest/c'' \<mapsto> File True True [])) [''o'']))) = [] \<and>
   stdin (snd (link_file ''A/c'' ''dest/c''
     (new_worker 4096 (tree(''dest/c'' \<mapsto> File True True [])) [''o'']))) = [''o'']"
  by (simp add: path_exists_def resolve_plain link_file_cases os_symlink_def parent_dir_def
      dirname_def resolve_def follow.simps tree_def new_worker_def)

text \<open>
  Claim C4, amended: \<open>copy_file\<close> prints its question for \<open>dest\<close> exactly when
  \<open>os.path.exists(dest)\<close> holds at the call (a dangling link at \<open>dest\<close> does not
  count), and otherwise neither prints nor reads; \<open>link_file\<close> never prompts and never
  reads the standard input, whether the destination exists or not.
\<close>

theorem prompt_only_in_copy_file:
  "prompted dest s (snd (copy_file src dest s)) = path_exists (files s) dest \<and>
   (\<not> path_exists (files s) dest \<longrightarrow>
      stdout (snd (copy_file src dest s)) = stdout s \<and> stdin (snd (copy_file src dest s)) = stdin s) \<and>
   \<not> prompted dest s (snd (link_file src dest s)) \<and>
   stdout (snd (link_file src dest s)) = stdout s \<and> stdin (snd (link_file src dest s)) = stdin s"
  using copy_file_prompts [of dest s src] copy_body_terminal [of src dest s]
    link_file_terminal [of src dest s]
  by (simp add: copy_file_def prompted_same)

theorem prompt_only_in_copy_file_witness:
  "path_exists (files (new_worker 4096 bins [''s''])) ''dest.bin'' \<and>
   prompted ''dest.bin'' (new_worker 4096 bins [''s''])
     (snd (copy_file ''src.bin'' ''dest.bin'' (new_worker 4096 bins [''s'']))) \<and>
   \<not> path_exists (files (new_worker 4096 bins [''s''])) ''new.bin'' \<and>
   \<not> prompted ''new.bin'' (new_worker 4096 bins [''s''])
     (snd (copy_file ''src.bin'' ''new.bin'' (new_worker 4096 bins [''s'']))) \<and>
   stdin (snd (copy_file ''src.bin'' ''new.bin'' (new_worker 4096 bins [''s'']))) = [''s''] \<and>
   \<not> prompted ''dest.bin'' (new_worker 4096 bins [''s''])
     (snd (link_file ''src.bin'' ''dest.bin'' (new_worker 4096 bins [''s''])))"
proof -
  let ?s = "new_worker 4096 bins [''s'']"
  have a: "path_exists (files ?s) ''dest.bin''" using bins_exists by (simp add: new_worker_def)
  have b: "\<not> path_exists (files ?s) ''new.bin''"
    by (simp add: path_exists_def resolve_plain bins_def new_worker_def)
  have c: "stdin ?s = [''s'']" by (simp add: new_worker_def)
  from prompt_only_in_copy_file [of "''dest.bin''" ?s "''src.bin''"]
    prompt_only_in_copy_file [of "''new.bin''" ?s "''src.bin''"] a b c
  show ?thesis by simp
qed

subsection \<open>C5: the answer \<open>e\<close>\<close>

text \<open>
  Claim C5: when the destination exists and the answer is \<open>e\<close> or \<open>E\<close> (after any
  number of lines that are no answer), \<open>copy_file\<close> ends the process with status 1, and
  nothing but the standard input and output has changed: the file system, so the
  destination's content, is as before.
\<close>

theorem copy_file_exit:
  assumes "path_exists (files s) dest"
      and "stdin s = junk @ line # rest"
      and "\<forall>l\<in>set junk. lower l \<notin> {''s'', ''e'', ''o''}"
      and "lower line = ''e''"
  shows "copy_file src dest s =
           (Exit 1, s\<lparr>stdin := rest, stdout := stdout s @ asked dest (junk @ [line])\<rparr>) \<and>
         files (snd (copy_file src dest s)) = files s"
  using assms(1,2) ask_answer(2) [OF assms(3,4)] by (simp add: copy_file_def)

theorem copy_file_exit_witness:
  "path_exists (files (new_worker 4096 bins [''x'', ''E'', ''o''])) ''dest.bin'' \<and>
   lower ''x'' \<notin> {''s'', ''e'', ''o''} \<and> lower ''E'' = ''e'' \<and>
   fst (copy_file ''src.bin'' ''dest.bin'' (new_worker 4096 bins [''x'', ''E'', ''o''])) = Exit 1 \<and>
   files (snd (copy_file ''src.bin'' ''dest.bin'' (new_worker 4096 bins [''x'', ''E'', ''o'']))) ''dest.bin''
     = Some (File True True [0x41]) \<and>
   stdin (snd (copy_file ''src.bin'' ''dest.bin'' (new_worker 4096 bins [''x'', ''E'', ''o'']))) = [''o'']"
proof -
  let ?s = "new_worker 4096 bins [''x'', ''E'', ''o'']"
  have a: "path_exists (files ?s) ''dest.bin''" using bins_exists by (simp add: new_worker_def)
  have b: "stdin ?s = [''x''] @ ''E'' # [''o'']" by (simp add: new_worker_def)
  have c: "\<forall>l\<in>set [''x'']. lower l \<notin> {''s'', ''e'', ''o''}" by (simp add: lower_def lower_char_def)
  have d: "lower ''E'' = ''e''" by (simp add: lower_e)
  have e: "files ?s ''dest.bin'' = Some (File True True [0x41])" by (simp add: new_worker_def bins_def)
  from copy_file_exit [OF a b c d, of "''src.bin''"] a c d e show ?thesis by simp
qed

subsection \<open>C6: the answer \<open>s\<close>\<close>

text \<open>
  Claim C6: when the destination exists and the answer is \<open>s\<close> or \<open>S\<close> (after any
  number of lines that are no answer), \<open>copy_file\<close> returns at once: nothing is
  written, no bar is made, nothing is logged, and the file system, so the destination's
  content, is as before.
\<close>

theorem copy_file_skip:
  assumes "path_exists (files s) dest"
      and "stdin s = junk @ line # rest"
      and "\<forall>l\<in>set junk. lower l \<notin> {''s'', ''e'', ''o''}"
      and "lower line = ''s''"
  shows "copy_file src dest s =
           (Return, s\<lparr>stdin := rest, stdout := stdout s @ asked dest (junk @ [line])\<rparr>) \<and>
         files (snd (copy_file src dest s)) = files s \<and>
         logged (snd (copy_file src dest s)) = logged s \<and>
         events (snd (copy_file src dest s)) = events s"
  using assms(1,2) ask_answer(1) [OF assms(3,4)] by (simp add: copy_file_def)

theorem copy_file_skip_witness:
  "path_exists (files (new_worker 4096 bins [''S'', ''o''])) ''dest.bin'' \<and>
   lower ''S'' = ''s'' \<and>
   copy_file ''src.bin'' ''dest.bin'' (new_worker 4096 bins [''S'', ''o'']) =
     (Return, new_worker 4096 bins [''o'']\<lparr>stdout := [question ''dest.bin'', ''> '']\<rparr>) \<and>
   files (snd (copy_file ''src.bin'' ''dest.bin'' (new_worker 4096 bins [''S'', ''o'']))) ''dest.bin''
     = Some (File True True [0x41])"
proof -
  let ?s = "new_worker 4096 bins [''S'', ''o'']"
  have a: "path_exists (files ?s) ''dest.bin''" using bins_exists by (simp add: new_worker_def)
  have b: "stdin ?s = [] @ ''S'' # [''o'']" by (simp add: new_worker_def)
  have c: "\<forall>l\<in>set []. lower l \<notin> {''s'', ''e'', ''o''}" by simp
  have d: "lower ''S'' = ''s''" by (simp add: lower_s)
  have e: "files ?s ''dest.bin'' = Some (File True True [0x41])" by (simp add: new_worker_def bins_def)
  from copy_file_skip [OF a b c d, of "''src.bin''"] a d e show ?thesis
    by (simp add: asked_def new_worker_def)
qed

subsection \<open>C7: the chunks\<close>

text \<open>The equations that run the model on a concrete state.\<close>

lemmas run_simps =
  copy_file_def path_exists_def resolve_def follow.simps copy_body_def init_bar_def getsize_def
  is_binary_def open_read_def text_read_def fill.simps read_chunk_def decode_block_def lead_def
  CHUNK_SIZE_def text_open_def file_content_def transfer_def open_write_def open_reader_def
  copy_loop.simps write_chunk_def bar_step_def close_bar_def truth_def basename_def Let_def
  CR_def LF_def new_worker_def binary_read_def parent_dir_def dirname_def



lemma copy_file_ten:
  "copy_file ''src.txt'' ''dest.txt'' ten =
     (Return,
      new_worker 4 [''src.txt'' \<mapsto> File True True digits, ''dest.txt'' \<mapsto> File True True digits] []
        \<lparr>curr_path := Some ''src.txt'',
         logged := [(INFO, Success_copying ''src.txt'' ''dest.txt'')],
         events := [Bar_new 10 ''src.txt'',
            Write ''dest.txt'' (Str [[0x30], [0x31], [0x32], [0x33]]), Bar_update 4, Bar_set_description,
            Write ''dest.txt'' (Str [[0x34], [0x35], [0x36], [0x37]]), Bar_update 4, Bar_set_description,
            Write ''dest.txt'' (Str [[0x38], [0x39]]), Bar_update 2, Bar_set_description,
            Bar_close]\<rparr>)"
  by (simp add: run_simps digits_def ten_def)





subsection \<open>C2: the content of the copy\<close>

text \<open>
  Claim C2 says that a complete copy has the bytes of its source, in text mode too. A file
  that decodes as UTF-8 is copied in text mode, and reading in text mode turns \<open>\r\n\<close>
  into \<open>\n\<close>: the copy of \<open>a\r\nb\<close> is complete, its success is logged, and the
  destination holds \<open>a\nb\<close>.
\<close>

theorem copy_file_content_counterexample:
  "is_binary (files crlf) ''src.txt'' = Inr False \<and>
   \<not> path_exists (files crlf) ''dest.txt'' \<and>
   fst (copy_file ''src.txt'' ''dest.txt'' crlf) = Return \<and>
   logged (snd (copy_file ''src.txt'' ''dest.txt'' crlf)) =
     [(INFO, Success_copying ''src.txt'' ''dest.txt'')] \<and>
   file_content (files (snd (copy_file ''src.txt'' ''dest.txt'' crlf))) ''src.txt'' =
     [0x61, 0x0D, 0x0A, 0x62] \<and>
   file_content (files (snd (copy_file ''src.txt'' ''dest.txt'' crlf))) ''dest.txt'' =
     [0x61, 0x0A, 0x62]"
  by (simp add: run_simps crlf_def)

text \<open>Two more ways to a complete copy that differs from its source: a chunk size of 0,
  for which the first read returns nothing, and a destination that is the source, which
  opening for writing empties before the first read.\<close>

lemma copy_file_chunk_size_0:
  "is_binary (files (new_worker 0 bins [''o''])) ''src.bin'' = Inr True \<and>
   fst (copy_file ''src.bin'' ''dest.bin'' (new_worker 0 bins [''o''])) = Return \<and>
   logged (snd (copy_file ''src.bin'' ''dest.bin'' (new_worker 0 bins [''o'']))) =
     [(INFO, Success_copying ''src.bin'' ''dest.bin'')] \<and>
   file_content (files (snd (copy_file ''src.bin'' ''dest.bin'' (new_worker 0 bins [''o''])))) ''dest.bin''
     = []"
  by (simp add: run_simps bins_def lower_def lower_char_def)

lemma copy_file_onto_itself:
  "fst (copy_file ''src.bin'' ''src.bin'' (new_worker 4096 bins [''o''])) = Return \<and>
   logged (snd (copy_file ''src.bin'' ''src.bin'' (new_worker 4096 bins [''o'']))) =
     [(INFO, Success_copying ''src.bin'' ''src.bin'')] \<and>
   file_content (files (snd (copy_file ''src.bin'' ''src.bin'' (new_worker 4096 bins [''o''])))) ''src.bin''
     = []"
  by (simp add: run_simps bins_def lower_def lower_char_def)

text \<open>
  Claim C2, amended (for a POSIX platform with a UTF-8 locale): when \<open>copy_file\<close> logs
  the success of the copy, the chunk size is not 0, and source and destination resolve to
  two different files, the destination's bytes afterwards are the source's bytes, in binary
  mode always and in text mode when the source holds no carriage return; no other file
  changes, so the source is as before.
\<close>

theorem copy_file_content:
  assumes "logged (snd (copy_file src dest s)) = logged s @ [(INFO, Success_copying src dest)]"
    and "resolve (files s) src = Some qs" "resolve (files s) dest = Some qd" "qs \<noteq> qd"
    and "chunk_size s \<noteq> 0"
    and "is_binary (files s) src = Inr True \<or> 0x0D \<notin> set (file_content (files s) qs)"
  shows "file_content (files (snd (copy_file src dest s))) qd = file_content (files s) qs \<and>
         (\<forall>p. p \<noteq> qd \<longrightarrow> files (snd (copy_file src dest s)) p = files s p)"
proof -
  from copy_file_complete [OF assms(1)] obtain s0 where
    s0: "files s0 = files s" "chunk_size s0 = chunk_size s" "logged s0 = logged s"
      "snd (copy_file src dest s) = snd (copy_body src dest s0)" by auto
  have "logged (snd (copy_body src dest s0)) = logged s0 @ [(INFO, Success_copying src dest)]"
    using assms(1) s0 by simp
  from copy_body_complete [OF this] obtain b s1 where
    b: "is_binary (files s0) src = Inr b" "files s1 = files s0" "chunk_size s1 = chunk_size s0"
      "fst (transfer b src dest s1) = Return"
      "files (snd (copy_body src dest s0)) = files (snd (transfer b src dest s1))" by auto
  have "b \<or> 0x0D \<notin> set (file_content (files s1) qs)"
    using assms(6) b(1,2) s0(1) by auto
  with transfer_content [of b src dest s1 qs qd] b s0 assms(2-5)
  show ?thesis by simp
qed

theorem copy_file_content_witness:
  "logged (snd (copy_file ''src.bin'' ''dest.bin'' (new_worker 4096 bins [''o'']))) =
     logged (new_worker 4096 bins [''o'']) @ [(INFO, Success_copying ''src.bin'' ''dest.bin'')] \<and>
   resolve (files (new_worker 4096 bins [''o''])) ''src.bin'' = Some ''src.bin'' \<and>
   resolve (files (new_worker 4096 bins [''o''])) ''dest.bin'' = Some ''dest.bin'' \<and>
   ''src.bin'' \<noteq> ''dest.bin'' \<and> chunk_size (new_worker 4096 bins [''o'']) \<noteq> 0 \<and>
   is_binary (files (new_worker 4096 bins [''o''])) ''src.bin'' = Inr True \<and>
   file_content (files (new_worker 4096 bins [''o''])) ''dest.bin'' = [0x41] \<and>
   file_content (files (snd (copy_file ''src.bin'' ''dest.bin'' (new_worker 4096 bins [''o''])))) ''dest.bin''
     = [0xFF, 0x00, 0x01] \<and>
   logged (snd (copy_file ''src.txt'' ''dest.txt'' ten)) =
     logged ten @ [(INFO, Success_copying ''src.txt'' ''dest.txt'')] \<and>
   is_binary (files ten) ''src.txt'' = Inr False \<and>
   0x0D \<notin> set (file_content (files ten) ''src.txt'') \<and>
   file_content (files (snd (copy_file ''src.txt'' ''dest.txt'' ten))) ''dest.txt'' = digits"
proof -
  let ?s = "new_worker 4096 bins [''o'']"
  have a: "logged (snd (copy_file ''src.bin'' ''dest.bin'' ?s)) =
      logged ?s @ [(INFO, Success_copying ''src.bin'' ''dest.bin'')]"
    by (simp add: run_simps bins_def lower_def lower_char_def)
  have b: "resolve (files ?s) ''src.bin'' = Some ''src.bin''"
    by (simp add: resolve_plain new_worker_def bins_def)
  have c: "resolve (files ?s) ''dest.bin'' = Some ''dest.bin''"
    by (simp add: resolve_plain new_worker_def bins_def)
  have d: "''src.bin'' \<noteq> ''dest.bin''" by simp
  have e: "chunk_size ?s \<noteq> 0" by (simp add: new_worker_def)
  have f: "is_binary (files ?s) ''src.bin'' = Inr True"
    by (simp add: run_simps bins_def)
  have g: "file_content (files ?s) ''src.bin'' = [0xFF, 0x00, 0x01]"
    "file_content (files ?s) ''dest.bin'' = [0x41]"
    by (simp_all add: file_content_def new_worker_def bins_def)
  have bmode: "file_content (files (snd (copy_file ''src.bin'' ''dest.bin'' ?s))) ''dest.bin''
      = [0xFF, 0x00, 0x01]"
    using copy_file_content [OF a b c d e disjI1 [OF f]] g by simp
  have a': "logged (snd (copy_file ''src.txt'' ''dest.txt'' ten)) =
      logged ten @ [(INFO, Success_copying ''src.txt'' ''dest.txt'')]"
    by (simp add: copy_file_ten) (simp add: ten_def new_worker_def)
  have b': "resolve (files ten) ''src.txt'' = Some ''src.txt''"
    by (simp add: resolve_plain new_worker_def ten_def)
  have c': "resolve (files ten) ''dest.txt'' = Some ''dest.txt''"
    by (simp add: resolve_plain new_worker_def ten_def)
  have d': "''src.txt'' \<noteq> ''dest.txt''" by simp
  have e': "chunk_size ten \<noteq> 0" by (simp add: new_worker_def ten_def)
  have f': "is_binary (files ten) ''src.txt'' = Inr False"
    by (simp add: run_simps ten_def digits_def)
  have g': "file_content (files ten) ''src.txt'' = digits"
    by (simp add: file_content_def new_worker_def ten_def)
  have h': "0x0D \<notin> set (file_content (files ten) ''src.txt'')"
    by (simp add: g') (simp add: digits_def)
  have tmode: "file_content (files (snd (copy_file ''src.txt'' ''dest.txt'' ten))) ''dest.txt'' = digits"
    using copy_file_content [OF a' b' c' d' e' disjI2 [OF h']] g' by simp
  from a b c d e f g(2) bmode a' f' h' tmode show ?thesis by blast
qed

subsection \<open>C9: the probe of \<open>is_binary\<close>\<close>

text \<open>
  Claim C9 says that \<open>is_binary\<close> decodes the first 16 bytes and nothing else.
  \<open>fp.read(16)\<close> asks for 16 characters, and the text layer decodes a whole block of
  the file to find them. The first 16 bytes of the first file do not decode, and the file
  is text; the first 16 bytes of the second file decode, and the file is binary.
\<close>

theorem is_binary_probe_counterexample:
  "utf8_decode True (take 16 straddle) = Decode_error \<and>
   is_binary [''f'' \<mapsto> File True True straddle] ''f'' = Inr False \<and>
   utf8_decode True (take 16 late_ff) \<noteq> Decode_error \<and>
   is_binary [''f'' \<mapsto> File True True late_ff] ''f'' = Inr True"
  by (simp add: run_simps straddle_def late_ff_def)

text \<open>
  Claim C9, amended: \<open>is_binary\<close> opens the file as UTF-8 text and asks for 16
  characters; it returns true exactly when the decoding done for that read fails, and
  false otherwise. The decoder is given the file in blocks of 8192 bytes, so a file that is
  well-formed UTF-8 as a whole is text, and a file on whose first block the incremental
  decoder fails is binary. The decoder fails on an ill-formed sequence anywhere in the
  block, except that it keeps for the next call a sequence the block ends in the middle
  of, and the two bytes \<open>ED A0\<close> to \<open>ED BF\<close> when the block ends in them. The
  \<open>UnicodeDecodeError\<close> is never raised to the caller; a failure to open the file is.
\<close>

theorem is_binary_probe:
  "is_binary f p \<noteq> Inl UnicodeDecodeError \<and>
   (\<forall>e. open_read f p = Inl e \<longrightarrow> is_binary f p = Inl e) \<and>
   (\<forall>q. open_read f p = Inr q \<longrightarrow>
      is_binary f p =
        Inr (text_read 16 (text_open (file_content f q)) = Inl UnicodeDecodeError) \<and>
      (well_formed (file_content f q) \<longrightarrow> is_binary f p = Inr False) \<and>
      (utf8_decode False (take CHUNK_SIZE (file_content f q)) = Decode_error \<longrightarrow>
         is_binary f p = Inr True))"
proof (cases "open_read f p")
  case (Inl e)
  then have "is_binary f p = Inl e" by (simp add: is_binary_def)
  moreover from Inl have "e \<noteq> UnicodeDecodeError"
    by (auto simp: open_read_def split: option.splits node.splits if_splits)
  ultimately show ?thesis using Inl by simp
next
  case (Inr q)
  let ?r = "text_read 16 (text_open (file_content f q))"
  have a: "is_binary f p = Inr (?r = Inl UnicodeDecodeError)"
  proof (cases ?r)
    case (Inl e)
    with text_read_error [OF Inl] Inr show ?thesis by (simp add: is_binary_def)
  next
    case r: (Inr x)
    with Inr show ?thesis by (simp add: is_binary_def)
  qed
  have b: "is_binary f p = Inr False" if "well_formed (file_content f q)"
    using text_read_well_formed [OF that, of 16] a by auto
  have c: "is_binary f p = Inr True"
    if "utf8_decode False (take CHUNK_SIZE (file_content f q)) = Decode_error"
    using text_read_first_block [OF that, of 16] a by simp
  from a b c Inr show ?thesis by simp
qed

theorem is_binary_probe_witness:
  "open_read [''f'' \<mapsto> File True True late_ff] ''f'' = Inr ''f'' \<and>
   utf8_decode False (take CHUNK_SIZE (file_content [''f'' \<mapsto> File True True late_ff] ''f''))
     = Decode_error \<and>
   is_binary [''f'' \<mapsto> File True True late_ff] ''f'' = Inr True \<and>
   open_read [''f'' \<mapsto> File True True straddle] ''f'' = Inr ''f'' \<and>
   well_formed (file_content [''f'' \<mapsto> File True True straddle] ''f'') \<and>
   is_binary [''f'' \<mapsto> File True True straddle] ''f'' = Inr False \<and>
   open_read [''f'' \<mapsto> File False True straddle] ''f'' = Inl (PermissionError ''f'') \<and>
   is_binary [''f'' \<mapsto> File False True straddle] ''f'' = Inl (PermissionError ''f'')"
proof -
  have a: "open_read [''f'' \<mapsto> File True True late_ff] ''f'' = Inr ''f''"
    by (simp add: open_read_def resolve_plain)
  have b: "utf8_decode False (take CHUNK_SIZE (file_content [''f'' \<mapsto> File True True late_ff] ''f''))
     = Decode_error"
    by (simp add: file_content_def CHUNK_SIZE_def late_ff_def lead_def)
  have c: "open_read [''f'' \<mapsto> File True True straddle] ''f'' = Inr ''f''"
    by (simp add: open_read_def resolve_plain)
  have d: "well_formed (file_content [''f'' \<mapsto> File True True straddle] ''f'')"
    by (simp add: well_formed_def file_content_def straddle_def lead_def)
  have e: "open_read [''f'' \<mapsto> File False True straddle] ''f'' = Inl (PermissionError ''f'')"
    by (simp add: open_read_def resolve_plain)
  have "is_binary [''f'' \<mapsto> File True True late_ff] ''f'' = Inr True"
    using is_binary_probe [of "[''f'' \<mapsto> File True True late_ff]" "''f''"] a b by blast
  moreover have "is_binary [''f'' \<mapsto> File True True straddle] ''f'' = Inr False"
    using is_binary_probe [of "[''f'' \<mapsto> File True True straddle]" "''f''"] c d by blast
  moreover have "is_binary [''f'' \<mapsto> File False True straddle] ''f'' = Inl (PermissionError ''f'')"
    using is_binary_probe [of "[''f'' \<mapsto> File False True straddle]" "''f''"] e by blast
  ultimately show ?thesis using a b c d e by blast
qed

text \<open>The bytes \<open>ED A0\<close> at the end of a file: after sixteen letters the probe has its
  16 characters and never learns of them; after fifteen it asks the decoder for more, and
  the final call fails.\<close>

lemma trail_2:
  "trail 2 lo hi [] = Truncated"
  "trail 2 lo hi (b # bs) = (if lo \<le> b \<and> b \<le> hi then trail 1 0x80 0xBF bs else Ill_formed)"
  by (simp_all add: numeral_2_eq_2)

lemma is_binary_held_back:
  "is_binary [''f'' \<mapsto> File True True
      [0x61, 0x61, 0x61, 0x61, 0x61, 0x61, 0x61, 0x61, 0x61, 0x61, 0x61, 0x61, 0x61, 0x61, 0x61,
       0x61, 0xED, 0xA0]] ''f'' = Inr False \<and>
   is_binary [''f'' \<mapsto> File True True
      [0x61, 0x61, 0x61, 0x61, 0x61, 0x61, 0x61, 0x61, 0x61, 0x61, 0x61, 0x61, 0x61, 0x61, 0x61,
       0xED, 0xA0]] ''f'' = Inr True"
  by (simp add: run_simps surrogate_start_def trail_2)

subsection \<open>C3: exceptions in \<open>copy_file\<close>\<close>

text \<open>What the \<open>try\<close> statement does contain: an exception of the transfer is logged
  after \<open>close_bar\<close>, and \<open>copy_file\<close> returns.\<close>

lemma copy_body_contains:
  assumes "init_bar (s\<lparr>curr_path := Some src\<rparr>) = (Return, s1)"
    and "is_binary (files s1) src = Inr b"
    and "transfer b src dest s1 = (Raise e, s2)"
  shows "copy_body src dest s =
           (Return, (close_bar s2)\<lparr>logged := logged s2 @ [(ERROR, Error_copying src dest e)]\<rparr>)"
  using assms by (simp add: copy_body_def Let_def)

text \<open>What escapes it: the size query and the probe run before the \<open>try\<close>.\<close>

lemma copy_body_size_query_raises:
  "init_bar (s\<lparr>curr_path := Some src\<rparr>) = (Raise e, s1) \<Longrightarrow>
     copy_body src dest s = (Raise e, s1)"
  by (simp add: copy_body_def)

lemma copy_body_probe_raises:
  "init_bar (s\<lparr>curr_path := Some src\<rparr>) = (Return, s1) \<Longrightarrow>
   is_binary (files s1) src = Inl e \<Longrightarrow>
     copy_body src dest s = (Raise e, s1) \<and> bar s1 \<noteq> None \<and> logged s1 = logged s"
  using init_bar_Return [of "s\<lparr>curr_path := Some src\<rparr>" s1]
    init_bar_frame(3) [of "s\<lparr>curr_path := Some src\<rparr>"]
  by (simp add: copy_body_def)

lemma is_binary_Inl: "is_binary f p = Inl e \<Longrightarrow> open_read f p = Inl e"
  by (auto simp: is_binary_def split: sum.splits if_splits dest: text_read_error)

lemma init_bar_Raise:
  "init_bar (s\<lparr>curr_path := Some src\<rparr>) = (Raise e, s1) \<Longrightarrow> getsize (files s) src = Inl e"
  by (auto simp: init_bar_def split: sum.splits)

lemma init_bar_no_Exit: "fst (init_bar s) \<noteq> Exit c"
  by (auto simp: init_bar_def split: option.splits sum.splits)

lemma copy_loop_no_Exit: "fst (copy_loop q rd s) \<noteq> Exit c"
proof (induction q rd s rule: copy_loop.induct)
  case (1 q rd s)
  show ?case
  proof (cases q rd s rule: copy_loop_cases)
    case (step buffer rd' b)
    from "1.IH" [OF step(1) refl step(2) step(3)] step(4) show ?thesis by simp
  qed simp_all
qed

lemma transfer_no_Exit: "fst (transfer b src dest s) \<noteq> Exit c"
  using copy_loop_no_Exit by (auto simp: transfer_def split: sum.splits)

text \<open>The exceptions that leave \<open>copy_file\<close> are those of the prompt, of the size query
  and of the probe's \<open>open\<close>; every exception of the transfer is contained.\<close>

lemma copy_body_Raise:
  assumes "fst (copy_body src dest s) = Raise e"
  shows "getsize (files s) src = Inl e \<or> open_read (files s) src = Inl e"
proof -
  let ?s0 = "s\<lparr>curr_path := Some src\<rparr>"
  obtain o1 s1 where i: "init_bar ?s0 = (o1, s1)" by (cases "init_bar ?s0")
  have f1: "files s1 = files s" using init_bar_frame(4) [of ?s0] i by simp
  show ?thesis
  proof (cases o1)
    case Return
    show ?thesis
    proof (cases "is_binary (files s1) src")
      case (Inl e')
      with i Return assms have "e' = e" by (simp add: copy_body_def)
      with is_binary_Inl [OF Inl] f1 show ?thesis by simp
    next
      case (Inr b)
      obtain o2 s2 where t: "transfer b src dest s1 = (o2, s2)" by (cases "transfer b src dest s1")
      with i Return Inr assms transfer_no_Exit [of b src dest s1] show ?thesis
        by (cases o2) (simp_all add: copy_body_def Let_def)
    qed
  next
    case (Raise e')
    with i assms have "e' = e" by (simp add: copy_body_def)
    with init_bar_Raise i Raise show ?thesis by simp
  next
    case (Exit c)
    with i init_bar_no_Exit [of ?s0 c] show ?thesis by simp
  qed
qed

lemma copy_file_Raise:
  assumes "fst (copy_file src dest s) = Raise e"
  shows "e = EOFError \<or> getsize (files s) src = Inl e \<or> open_read (files s) src = Inl e"
proof (cases "path_exists (files s) dest")
  case False
  with assms copy_body_Raise [of src dest s e] show ?thesis by (simp add: copy_file_def)
next
  case True
  obtain d inp out where a: "ask dest (stdin s) (stdout s) = (d, inp, out)"
    by (cases "ask dest (stdin s) (stdout s)") auto
  show ?thesis
  proof (cases d)
    case Overwrite
    with True a assms copy_body_Raise [of src dest "s\<lparr>stdin := inp, stdout := out\<rparr>" e]
    show ?thesis by (simp add: copy_file_def)
  qed (use True a assms in \<open>simp_all add: copy_file_def\<close>)
qed

text \<open>
  Claim C3 says that every exception of opening, reading or writing, the probe and the
  size query included, is logged and contained. \<open>init_bar\<close> (line 113) and
  \<open>is_binary\<close> (line 114) run before the \<open>try\<close> statement of line 116. For a source
  the user may not read, the probe's \<open>open\<close> raises \<open>PermissionError\<close>:
  \<open>copy_file\<close> raises it to its caller, logs nothing and leaves the bar it has just
  made open. For a source that is not there, the size query raises
  \<open>FileNotFoundError\<close>, which is raised to the caller as well.
\<close>

theorem copy_file_probe_failure_propagates:
  "copy_file ''src.txt'' ''dest.txt'' unreadable =
     (Raise (PermissionError ''src.txt''),
      unreadable\<lparr>bar := Some \<lparr>bar_total = 10, bar_n = 0, bar_desc = ''src.txt''\<rparr>,
                 curr_path := Some ''src.txt'',
                 events := [Bar_new 10 ''src.txt'']\<rparr>) \<and>
   logged (snd (copy_file ''src.txt'' ''dest.txt'' unreadable)) = [] \<and>
   copy_file ''gone.txt'' ''dest.txt'' unreadable =
     (Raise (FileNotFoundError ''gone.txt''), unreadable\<lparr>curr_path := Some ''gone.txt''\<rparr>) \<and>
   logged (snd (copy_file ''gone.txt'' ''dest.txt'' unreadable)) = []"
  by (simp add: run_simps unreadable_def digits_def)

subsection \<open>C8: the life of the progress bar\<close>

text \<open>Closing twice is closing once, and closing no bar does nothing.\<close>

lemma close_bar_idempotent: "close_bar (close_bar s) = close_bar s"
  by (simp add: close_bar_def truth_def)

lemma close_bar_no_bar: "bar s = None \<Longrightarrow> close_bar s = s"
  by (simp add: close_bar_def truth_def)

lemma close_bar_closes: "bar s = Some b \<Longrightarrow> 0 < bar_total b \<Longrightarrow> bar (close_bar s) = None"
  by (simp add: close_bar_def truth_def)

lemma close_bar_keeps_empty: "bar s = Some b \<Longrightarrow> bar_total b = 0 \<Longrightarrow> close_bar s = s"
  by (simp add: close_bar_def truth_def)

text \<open>The loop changes the counter of the bar, not its total.\<close>

lemma copy_loop_bar:
  "bar s = Some b \<Longrightarrow>
     \<exists>b'. bar (snd (copy_loop q rd s)) = Some b' \<and> bar_total b' = bar_total b"
proof (induction q rd s arbitrary: b rule: copy_loop.induct)
  case (1 q rd s)
  show ?case
  proof (cases q rd s rule: copy_loop_cases)
    case (step buffer rd' b0)
    with "1.prems" have b0: "b0 = b" by simp
    let ?s2 = "bar_step (chunk_len buffer) b0 (write_chunk q buffer s)"
    have "bar ?s2 = Some (b0\<lparr>bar_n := bar_n b0 + chunk_len buffer\<rparr>)" by simp
    from "1.IH" [OF step(1) refl step(2) step(3) this] step(4) b0 show ?thesis by simp
  qed (use "1.prems" in simp_all)
qed

lemma transfer_bar:
  "bar s = Some b \<Longrightarrow>
     \<exists>b'. bar (snd (transfer c src dest s)) = Some b' \<and> bar_total b' = bar_total b"
proof (cases "\<exists>qs qd f'. open_read (files s) src = Inr qs \<and> open_write (files s) dest = Inr (qd, f')")
  case False
  assume "bar s = Some b"
  moreover from False have "snd (transfer c src dest s) = s"
    by (auto simp: transfer_def split: sum.splits)
  ultimately show ?thesis by simp
next
  case True
  assume b: "bar s = Some b"
  from True obtain qs qd f' where o: "open_read (files s) src = Inr qs"
    "open_write (files s) dest = Inr (qd, f')" by auto
  have "bar (s\<lparr>files := f'\<rparr>) = Some b" using b by simp
  from copy_loop_bar [OF this, of qd "open_reader c (file_content f' qs)"] o
  show ?thesis by (simp add: transfer_def)
qed

text \<open>When the size query and the probe succeed and the source is not empty,
  \<open>copy_file\<close> returns with the bar closed, whatever the transfer did.\<close>

lemma copy_body_closes_bar:
  assumes "getsize (files s) src = Inr k" "0 < k" "is_binary (files s) src = Inr c"
  shows "fst (copy_body src dest s) = Return \<and> bar (snd (copy_body src dest s)) = None"
proof -
  let ?s0 = "s\<lparr>curr_path := Some src\<rparr>"
  let ?s1 = "?s0\<lparr>bar := Some \<lparr>bar_total = k, bar_n = 0, bar_desc = basename src\<rparr>,
                 events := events ?s0 @ [Bar_new k (basename src)]\<rparr>"
  have i: "init_bar ?s0 = (Return, ?s1)" using assms(1) by (simp add: init_bar_def)
  have b: "is_binary (files ?s1) src = Inr c" using assms(3) by simp
  obtain o2 s2 where t: "transfer c src dest ?s1 = (o2, s2)" by (cases "transfer c src dest ?s1")
  from transfer_bar [of ?s1 _ c src dest] t obtain b' where
    b': "bar s2 = Some b'" "bar_total b' = k" by auto
  with assms(2) have cl: "bar (close_bar s2) = None" by (simp add: close_bar_closes)
  from transfer_no_Exit [of c src dest ?s1] t have ne: "o2 \<noteq> Exit x" for x by auto
  show ?thesis
  proof (cases o2)
    case (Exit x)
    with ne [of x] show ?thesis by simp
  qed (use i b t cl in \<open>simp_all add: copy_body_def Let_def\<close>)
qed

text \<open>
  Claim C8 says that the bar is closed on every way out of \<open>copy_file\<close>. It is not when
  the probe raises (the run of C3: the exception leaves \<open>copy_file\<close> with the bar open),
  and it is not after the complete copy of an empty file: the bar has the total 0, so
  \<open>if self._bar:\<close> is false, \<open>close_bar\<close> does nothing, and the bar is still in
  \<open>self._bar\<close>, never closed, when \<open>copy_file\<close> returns. The next \<open>init_bar\<close>
  makes another bar over it.
\<close>

theorem copy_file_leaves_bar_open:
  "fst (copy_file ''src.txt'' ''dest.txt'' unreadable) = Raise (PermissionError ''src.txt'') \<and>
   bar (snd (copy_file ''src.txt'' ''dest.txt'' unreadable)) =
     Some \<lparr>bar_total = 10, bar_n = 0, bar_desc = ''src.txt''\<rparr> \<and>
   Bar_close \<notin> set (events (snd (copy_file ''src.txt'' ''dest.txt'' unreadable))) \<and>
   fst (copy_file ''empty.txt'' ''dest.txt'' empty_source) = Return \<and>
   logged (snd (copy_file ''empty.txt'' ''dest.txt'' empty_source)) =
     [(INFO, Success_copying ''empty.txt'' ''dest.txt'')] \<and>
   bar (snd (copy_file ''empty.txt'' ''dest.txt'' empty_source)) =
     Some \<lparr>bar_total = 0, bar_n = 0, bar_desc = ''empty.txt''\<rparr> \<and>
   events (snd (copy_file ''empty.txt'' ''dest.txt'' empty_source)) = [Bar_new 0 ''empty.txt'']"
  by (simp add: run_simps unreadable_def empty_source_def digits_def)

end
